theory Spec2Isabelle
  imports Main "HOL-Library.Char_ord" "HOL-Library.List_Lexorder"
begin

section \<open>Paths, names and extension keys (task1.py)\<close>

text \<open>
  A resolved \<open>pathlib.Path\<close> is modelled as the list of its components; \<open>p / n\<close> for a
  one-component name \<open>n\<close> is \<open>p @ [n]\<close>. A Python string is modelled as a \<open>string\<close>, the
  list of the bytes of its UTF-8 encoding. An ASCII character is one byte below 128 and no
  byte of any other character is below 128, so finding the last dot, cutting at it,
  testing for a leading dot, comparing with an ASCII name, joining, and the order of
  \<open>sorted\<close> are on the bytes what they are on the characters. \<open>str.lower\<close> is not
  of that kind: it goes by the Unicode tables of the Python runtime, which are not part of
  the repository, and is a parameter of the model.
\<close>

type_synonym path = "string list"

text \<open>\<open>Path.name\<close>: the final component, the empty string for a path without one.\<close>

definition name :: "path \<Rightarrow> string" where
  "name p = (if p = [] then [] else last p)"

text \<open>
  \<open>str.rfind(c)\<close>: the highest index at which \<open>c\<close> occurs, \<open>-1\<close> when it does not.
  The scan runs left to right and remembers the last hit.
\<close>

fun rfind_from :: "char \<Rightarrow> string \<Rightarrow> int \<Rightarrow> int \<Rightarrow> int" where
  "rfind_from c [] i found = found"
| "rfind_from c (x # xs) i found = rfind_from c xs (i + 1) (if x = c then i else found)"

definition rfind :: "char \<Rightarrow> string \<Rightarrow> int" where
  "rfind c s = rfind_from c s 0 (- 1)"

text \<open>
  \<open>PurePath.suffix\<close> and \<open>PurePath.stem\<close> as pathlib defines them (Python 3.4 to 3.13):
  \<^verbatim>\<open>
  name = self.name
  i = name.rfind('.')
  if 0 < i < len(name) - 1: return name[i:]     # stem: name[:i]
  else:                     return ''           # stem: name
  \<close>
\<close>

definition suffix :: "path \<Rightarrow> string" where
  "suffix p =
     (let nm = name p; i = rfind (CHR ''.'') nm
      in if 0 < i \<and> i < int (length nm) - 1 then drop (nat i) nm else [])"

definition stem :: "path \<Rightarrow> string" where
  "stem p =
     (let nm = name p; i = rfind (CHR ''.'') nm
      in if 0 < i \<and> i < int (length nm) - 1 then take (nat i) nm else nm)"

text \<open>
  The expression of \<open>move_file\<close> (line 81) and of \<open>process_files\<close> (line 114), with
  \<open>str.lower\<close> as the parameter \<open>str_lower\<close>:
  \<^verbatim>\<open>source.suffix[1:].lower() if source.suffix else 'no_extension'\<close>
\<close>

definition extension :: "(string \<Rightarrow> string) \<Rightarrow> path \<Rightarrow> string" where
  "extension str_lower p =
     (if suffix p \<noteq> [] then str_lower (drop 1 (suffix p)) else ''no_extension'')"

text \<open>
  What is known of \<open>str.lower\<close> without the Unicode tables: on a string of ASCII
  characters it replaces each of \<open>A..Z\<close> by the matching one of \<open>a..z\<close> and keeps every
  other character. \<open>ascii_lower\<close> is that function, and \<open>lowers_ascii\<close> says that a
  lowercasing function agrees with it on ASCII strings.
\<close>

definition is_ascii :: "char \<Rightarrow> bool" where
  "is_ascii c = ((of_char c :: nat) < 128)"

definition ascii_lower_char :: "char \<Rightarrow> char" where
  "ascii_lower_char c =
     (case map_of (zip ''ABCDEFGHIJKLMNOPQRSTUVWXYZ'' ''abcdefghijklmnopqrstuvwxyz'') c of
        None \<Rightarrow> c
      | Some l \<Rightarrow> l)"

definition ascii_lower :: "string \<Rightarrow> string" where
  "ascii_lower s = map ascii_lower_char s"

definition lowers_ascii :: "(string \<Rightarrow> string) \<Rightarrow> bool" where
  "lowers_ascii str_lower = (\<forall>s. list_all is_ascii s \<longrightarrow> str_lower s = ascii_lower s)"

section \<open>Collision resolution (move_file, lines 85 to 92)\<close>

text \<open>\<open>f"{counter}"\<close>: the decimal digits of a natural number.\<close>

definition digit_char :: "nat \<Rightarrow> char" where
  "digit_char d = ''0123456789'' ! d"

function str_nat :: "nat \<Rightarrow> string" where
  "str_nat n = (if n < 10 then [digit_char n] else str_nat (n div 10) @ [digit_char (n mod 10)])"
  by pat_completeness auto
termination
  by (relation "measure (\<lambda>n. n)") auto

declare str_nat.simps [simp del]

text \<open>\<open>new_name = f"{stem}_{counter}{source.suffix}"\<close> and \<open>target_dir / new_name\<close>.\<close>

definition new_name :: "path \<Rightarrow> nat \<Rightarrow> string" where
  "new_name source counter = stem source @ ''_'' @ str_nat counter @ suffix source"

definition renamed :: "path \<Rightarrow> path \<Rightarrow> nat \<Rightarrow> path" where
  "renamed target_dir source counter = target_dir @ [new_name source counter]"

text \<open>
  The file system the relocation phase sees: finitely many paths have an entry, and an
  entry either resolves (\<open>os.stat\<close> succeeds: a file, a directory, a link to something
  that exists) or dangles (a symbolic link to nothing, or an entry \<open>os.stat\<close> is
  refused). \<open>os.path.exists\<close> follows links and is true for the entries that resolve;
  \<open>has_entry\<close>, which is \<open>os.path.lexists\<close>, is true for every entry. The first
  binding of a path counts.
\<close>

datatype entry = Resolves | Dangling

type_synonym filesystem = "(path \<times> entry) list"

definition path_exists :: "filesystem \<Rightarrow> path \<Rightarrow> bool" where
  "path_exists fs p = (map_of fs p = Some Resolves)"

definition has_entry :: "filesystem \<Rightarrow> path \<Rightarrow> bool" where
  "has_entry fs p = (map_of fs p \<noteq> None)"

text \<open>Making or replacing the entry at a path, and taking it away.\<close>

definition put_entry :: "path \<Rightarrow> entry \<Rightarrow> filesystem \<Rightarrow> filesystem" where
  "put_entry p e fs = (p, e) # filter (\<lambda>b. fst b \<noteq> p) fs"

definition drop_entry :: "path \<Rightarrow> filesystem \<Rightarrow> filesystem" where
  "drop_entry p fs = filter (\<lambda>b. fst b \<noteq> p) fs"

text \<open>
  The \<open>while os.path.exists(destination)\<close> loop. It ends because the renamed candidates are
  pairwise distinct and only finitely many paths exist: the candidates still in the way
  from the current counter on grow fewer with every collision.
\<close>

definition digit_val :: "char \<Rightarrow> nat" where
  "digit_val c = length (takeWhile (\<lambda>x. x \<noteq> c) ''0123456789'')"

definition decimal_val :: "string \<Rightarrow> nat" where
  "decimal_val s = foldl (\<lambda>a c. 10 * a + digit_val c) 0 s"

lemma digit_val_digit_char: "d < 10 \<Longrightarrow> digit_val (digit_char d) = d"
proof -
  assume "d < 10"
  then have "d = 0 \<or> d = 1 \<or> d = 2 \<or> d = 3 \<or> d = 4 \<or> d = 5 \<or> d = 6 \<or> d = 7 \<or> d = 8 \<or> d = 9"
    by arith
  then show ?thesis
    by (elim disjE) (simp_all add: digit_val_def digit_char_def)
qed

lemma decimal_val_str_nat: "decimal_val (str_nat n) = n"
proof (induction n rule: str_nat.induct)
  case (1 n)
  show ?case
  proof (cases "n < 10")
    case True
    then show ?thesis
      by (subst str_nat.simps) (simp add: decimal_val_def digit_val_digit_char)
  next
    case False
    with 1 have "decimal_val (str_nat (n div 10)) = n div 10" by simp
    with False show ?thesis
      by (subst str_nat.simps) (simp add: decimal_val_def digit_val_digit_char)
  qed
qed

lemma str_nat_inj: "str_nat a = str_nat b \<Longrightarrow> a = b"
  by (metis decimal_val_str_nat)

lemma renamed_inj: "renamed t s a = renamed t s b \<Longrightarrow> a = b"
  by (simp add: renamed_def new_name_def str_nat_inj)

lemma path_exists_bound: "path_exists fs p \<Longrightarrow> p \<in> fst ` set fs"
  unfolding path_exists_def by (metis map_of_SomeD fst_conv image_eqI)

lemma finite_later_collisions: "finite {k. c \<le> k \<and> path_exists fs (renamed t s k)}"
proof -
  have "inj (renamed t s)" by (rule injI) (rule renamed_inj)
  then have "finite (renamed t s -` (fst ` set fs))" by (simp add: finite_vimageI)
  moreover have "{k. c \<le> k \<and> path_exists fs (renamed t s k)} \<subseteq> renamed t s -` (fst ` set fs)"
    using path_exists_bound by auto
  ultimately show ?thesis by (rule rev_finite_subset)
qed

definition later_collisions :: "filesystem \<Rightarrow> path \<Rightarrow> path \<Rightarrow> nat \<Rightarrow> nat" where
  "later_collisions fs t s c = card {k. c \<le> k \<and> path_exists fs (renamed t s k)}"

lemma later_collisions_hit:
  "path_exists fs (renamed t s c) \<Longrightarrow>
   later_collisions fs t s (Suc c) < later_collisions fs t s c"
proof -
  assume hit: "path_exists fs (renamed t s c)"
  define A where "A = {k. Suc c \<le> k \<and> path_exists fs (renamed t s k)}"
  define B where "B = {k. c \<le> k \<and> path_exists fs (renamed t s k)}"
  have "c \<in> B" using hit by (simp add: B_def)
  moreover have "c \<notin> A" by (simp add: A_def)
  moreover have "A \<subseteq> B" by (auto simp: A_def B_def)
  ultimately have "A \<subset> B" by blast
  then have "{k. Suc c \<le> k \<and> path_exists fs (renamed t s k)}
      \<subset> {k. c \<le> k \<and> path_exists fs (renamed t s k)}"
    by (simp add: A_def B_def)
  then show ?thesis
    unfolding later_collisions_def
    by (rule psubset_card_mono[OF finite_later_collisions])
qed

lemma later_collisions_miss:
  "later_collisions fs t s (Suc c) \<le> later_collisions fs t s c"
  unfolding later_collisions_def
  by (rule card_mono[OF finite_later_collisions]) auto

text \<open>
  \<^verbatim>\<open>
  destination = target_dir / source.name
  counter = 1
  while os.path.exists(destination):
      stem = source.stem
      new_name = f"{stem}_{counter}{source.suffix}"
      destination = target_dir / new_name
      counter += 1
  \<close>
\<close>

function resolve_loop :: "filesystem \<Rightarrow> path \<Rightarrow> path \<Rightarrow> path \<Rightarrow> nat \<Rightarrow> path" where
  "resolve_loop fs target_dir source destination counter =
     (if path_exists fs destination
      then resolve_loop fs target_dir source (renamed target_dir source counter) (counter + 1)
      else destination)"
  by pat_completeness auto
termination
proof (relation "measure (\<lambda>(fs, t, s, d, c).
          2 * later_collisions fs t s c + (if path_exists fs d then 1 else 0))")
  show "wf (measure (\<lambda>(fs, t, s, d, c).
          2 * later_collisions fs t s c + (if path_exists fs d then 1 else 0)))" by simp
next
  fix fs target_dir source destination and counter :: nat
  assume "path_exists fs destination"
  then show "((fs, target_dir, source, renamed target_dir source counter, counter + 1),
              (fs, target_dir, source, destination, counter))
        \<in> measure (\<lambda>(fs, t, s, d, c).
          2 * later_collisions fs t s c + (if path_exists fs d then 1 else 0))"
    using later_collisions_hit[of fs target_dir source counter]
          later_collisions_miss[of fs target_dir source counter]
    by auto
qed

declare resolve_loop.simps [simp del]

definition resolve :: "filesystem \<Rightarrow> path \<Rightarrow> path \<Rightarrow> path" where
  "resolve fs target_dir source =
     resolve_loop fs target_dir source (target_dir @ [name source]) 1"

section \<open>The directory walker (get_all_files)\<close>

text \<open>
  The protected directory names (lines 23 to 32), compared by exact name.
\<close>

definition SYSTEM_DIRS :: "string set" where
  "SYSTEM_DIRS = {''System Volume Information'', ''$Recycle.Bin'', ''Config.Msi'',
     ''Documents and Settings'', ''Program Files'', ''Program Files (x86)'', ''Windows'',
     ''Recovery''}"

text \<open>
  \<open>str.startswith\<close>.
\<close>

definition startswith :: "string \<Rightarrow> string \<Rightarrow> bool" where
  "startswith s pre = (take (length pre) s = pre)"

text \<open>
  What the file system shows the walker. An I/O call either succeeds or raises; the
  walker tells \<open>PermissionError\<close> from every other exception, so two error values are
  enough.
\<close>

datatype io_error = PermissionError | OtherError

text \<open>
  The tree under the source root at the time of the walk. A regular file carries the
  result of the probe \<open>open(path, 'rb')\<close>; a directory is listed by \<open>os.scandir\<close>
  (\<open>Dir\<close>, entries in listing order) or refuses the listing (\<open>LockedDir\<close>);
  \<open>Special\<close> is an entry that is neither file nor directory; for \<open>Inaccessible\<close>
  the first \<open>entry.is_dir()\<close> raises. Trees are finite, so links that form a cycle are
  outside the model.
\<close>

datatype node =
    File "io_error option"
  | Dir "(string \<times> node) list"
  | LockedDir io_error
  | Special
  | Inaccessible io_error

fun is_dir :: "node \<Rightarrow> bool" where
  "is_dir (Dir es) = True"
| "is_dir (LockedDir e) = True"
| "is_dir nd = False"

fun is_file :: "node \<Rightarrow> bool" where
  "is_file (File r) = True"
| "is_file nd = False"

fun stat_error :: "node \<Rightarrow> io_error option" where
  "stat_error (Inaccessible e) = Some e"
| "stat_error nd = None"

fun open_rb :: "node \<Rightarrow> io_error option" where
  "open_rb (File r) = r"
| "open_rb nd = None"

text \<open>
  Every \<open>logger\<close> call is one \<open>Log\<close> event with its level and its message; the
  formatted exception text is left out. The calls that touch the file system are events
  of their own, so that a run is the list of what it logged and did, in order.
\<close>

datatype level = INFO | WARNING | ERROR

datatype message =
    ErrorCreatingDirectory path
  | SkippingSystemDirectory path
  | NoAccessToFile path
  | NoAccessToDirectory path
  | NoAccessToEntry path
  | ErrorScanningDirectory path
  | SuccessfullyMoved path path
  | NoPermissionToMove path
  | ErrorMovingFile path
  | ErrorProcessingFile path
  | NoAccessibleFiles
  | Progress nat nat
  | ProcessingCompleted nat
  | FilesProcessedByExtension
  | ExtensionCount string nat
  | ErrorDuringFileProcessing
  | SourceDoesNotExist path
  | SourceAndDestinationSame
  | ProcessInterrupted
  | ProcessFailed
  | ProcessFinished

datatype event =
    Log level message
  | Scandir path
  | OpenRb path
  | Makedirs path
  | ShutilMove path path

text \<open>
  \<open>emit evs r\<close> puts the events \<open>evs\<close> in front of the events of the result \<open>r\<close>.
\<close>

definition emit :: "event list \<Rightarrow> path list \<times> event list \<Rightarrow> path list \<times> event list" where
  "emit evs r = (fst r, evs @ snd r)"

text \<open>
  \<open>get_all_files\<close> (lines 41 to 77) returns the collected set, as a duplicate-free list,
  and the events of the walk. \<open>scan_entries\<close> is the \<open>for entry in os.scandir(...)\<close>
  loop over the remaining entries with the set collected so far. A permission error on
  an entry is logged and the loop continues; any other exception leaves the loop, is
  logged by the handler of line 75, and the set collected so far is returned. The
  recursive call cannot raise, since every call catches what it meets.
\<close>

fun get_all_files :: "path \<Rightarrow> node \<Rightarrow> path list \<times> event list"
  and scan_entries :: "path \<Rightarrow> (string \<times> node) list \<Rightarrow> path list \<Rightarrow> path list \<times> event list"
where
  "get_all_files source_dir nd =
     (if name source_dir \<in> SYSTEM_DIRS
      then ([], [Log INFO (SkippingSystemDirectory source_dir)])
      else (case nd of
              Dir es \<Rightarrow> emit [Scandir source_dir] (scan_entries source_dir es [])
            | LockedDir PermissionError \<Rightarrow>
                ([], [Scandir source_dir, Log WARNING (NoAccessToDirectory source_dir)])
            | _ \<Rightarrow> ([], [Scandir source_dir, Log ERROR (ErrorScanningDirectory source_dir)])))"
| "scan_entries source_dir [] files = (files, [])"
| "scan_entries source_dir ((entry_name, entry) # rest) files =
     (let entry_path = source_dir @ [entry_name] in
      case stat_error entry of
        Some PermissionError \<Rightarrow>
          emit [Log WARNING (NoAccessToEntry entry_path)] (scan_entries source_dir rest files)
      | Some OtherError \<Rightarrow> (files, [Log ERROR (ErrorScanningDirectory source_dir)])
      | None \<Rightarrow>
          if is_dir entry \<and> entry_name \<in> SYSTEM_DIRS
          then emit [Log INFO (SkippingSystemDirectory entry_path)]
                 (scan_entries source_dir rest files)
          else if is_file entry
          then (case open_rb entry of
                  None \<Rightarrow>
                    emit [OpenRb entry_path]
                      (scan_entries source_dir rest (List.insert entry_path files))
                | Some PermissionError \<Rightarrow>
                    emit [OpenRb entry_path, Log WARNING (NoAccessToFile entry_path)]
                      (scan_entries source_dir rest files)
                | Some OtherError \<Rightarrow>
                    (files, [OpenRb entry_path, Log ERROR (ErrorScanningDirectory source_dir)]))
          else if is_dir entry \<and> \<not> startswith entry_name ''.''
          then (let sub = get_all_files entry_path entry
                in emit (snd sub) (scan_entries source_dir rest (List.union (fst sub) files)))
          else scan_entries source_dir rest files)"

declare get_all_files.simps [simp del]

section \<open>Relocation, the concurrency controller and the orchestrator\<close>

text \<open>
  What the program takes from outside. Whether \<open>makedirs\<close> and \<open>shutil.move\<close> fail is
  not decided by the program: the environment says, for each path, which exception the
  call raises, if any. A move that succeeds leaves at the destination an entry that
  resolves, or one that dangles (a relative symbolic link moved away from its target). A
  move that fails may have written a copy at the destination before it failed
  (\<open>shutil.move\<close> copies and then unlinks when it cannot rename). \<open>str_lower\<close> is
  \<open>str.lower\<close> of the Python runtime.
\<close>

record env =
  makedirs_error :: "path \<Rightarrow> io_error option"
  move_error :: "path \<Rightarrow> path \<Rightarrow> io_error option"
  lands_as :: "path \<Rightarrow> path \<Rightarrow> entry"
  copy_left :: "path \<Rightarrow> path \<Rightarrow> bool"
  str_lower :: "string \<Rightarrow> string"

text \<open>
  \<open>makedirs\<close> creates the directory and every missing ancestor.
\<close>

definition with_parents :: "path \<Rightarrow> path list" where
  "with_parents p = map (\<lambda>k. take k p) [1..<Suc (length p)]"

text \<open>
  \<open>create_directory\<close> (lines 34 to 39) logs and re-raises. The result is the exception
  raised, if any, the file system afterwards and the events.
\<close>

definition create_directory ::
  "env \<Rightarrow> path \<Rightarrow> filesystem \<Rightarrow> io_error option \<times> filesystem \<times> event list" where
  "create_directory E p fs =
     (case makedirs_error E p of
        None \<Rightarrow> (None, foldr (\<lambda>q. put_entry q Resolves) (with_parents p) fs, [Makedirs p])
      | Some e \<Rightarrow> (Some e, fs, [Makedirs p, Log ERROR (ErrorCreatingDirectory p)]))"

text \<open>
  The file system after \<open>shutil.move(source, destination)\<close>. A move that succeeds takes
  the entry away from the source path and makes or replaces the entry at the destination.
  A move that fails leaves the source where it is; the destination has a copy or not, as
  the environment says.
\<close>

definition shutil_move :: "env \<Rightarrow> path \<Rightarrow> path \<Rightarrow> filesystem \<Rightarrow> filesystem" where
  "shutil_move E source destination fs =
     (case move_error E source destination of
        None \<Rightarrow> put_entry destination (lands_as E source destination) (drop_entry source fs)
      | Some e \<Rightarrow>
          if copy_left E source destination then put_entry destination Resolves fs else fs)"

text \<open>
  \<open>move_file\<close> (lines 79 to 102) returns nothing and lets no exception out.
\<close>

definition move_file :: "env \<Rightarrow> path \<Rightarrow> path \<Rightarrow> filesystem \<Rightarrow> filesystem \<times> event list" where
  "move_file E source dest_dir fs =
     (let target_dir = dest_dir @ [extension (str_lower E) source] in
      case create_directory E target_dir fs of
        (Some e, fs1, tr) \<Rightarrow> (fs1, tr @ [Log ERROR (ErrorProcessingFile source)])
      | (None, fs1, tr) \<Rightarrow>
          (let destination = resolve fs1 target_dir source;
               fs2 = shutil_move E source destination fs1
           in case move_error E source destination of
             None \<Rightarrow>
               (fs2, tr @ [ShutilMove source destination,
                           Log INFO (SuccessfullyMoved source destination)])
           | Some PermissionError \<Rightarrow>
               (fs2, tr @ [ShutilMove source destination, Log WARNING (NoPermissionToMove source)])
           | Some OtherError \<Rightarrow>
               (fs2, tr @ [ShutilMove source destination, Log ERROR (ErrorMovingFile source)])))"

text \<open>
  \<open>extension_counts[ext] += 1\<close> on a \<open>defaultdict(int)\<close>, kept as an association list
  in insertion order.
\<close>

fun increment :: "string \<Rightarrow> (string \<times> nat) list \<Rightarrow> (string \<times> nat) list" where
  "increment k [] = [(k, 1)]"
| "increment k ((k', c) # kvs) = (if k = k' then (k', c + 1) # kvs else (k', c) # increment k kvs)"

definition count_extensions :: "(string \<Rightarrow> string) \<Rightarrow> path list \<Rightarrow> (string \<times> nat) list" where
  "count_extensions L files =
     foldl (\<lambda>counts file. increment (extension L file) counts) [] files"

text \<open>
  Exceptions that can reach \<open>process_files\<close> and \<open>main\<close> from outside the modelled
  I/O: an \<open>Exception\<close>, \<open>KeyboardInterrupt\<close>, or another \<open>BaseException\<close> such as
  \<open>asyncio.CancelledError\<close>. Only the first is caught by \<open>except Exception\<close>.
\<close>

datatype exn = SomeException | KeyboardInterrupt | CancelledError

definition is_Exception :: "exn \<Rightarrow> bool" where
  "is_Exception e = (e = SomeException)"

text \<open>
  The state of \<open>asyncio.gather\<close> over the \<open>move_with_progress\<close> tasks (lines 120 to
  131): the value of \<open>asyncio.Semaphore(10)\<close>, the tasks that have not yet entered
  \<open>async with semaphore\<close>, the tasks inside it, the counter \<open>processed_files\<close>, the
  file system, the events so far, and an exception delivered to the gathering coroutine.
\<close>

record controller =
  semaphore :: nat
  pending :: "path list"
  running :: "path list"
  processed_files :: nat
  disk :: filesystem
  trace :: "event list"
  raised :: "exn option"

text \<open>
  The event loop decides the interleaving. A schedule is a list of its decisions: a task
  enters \<open>async with semaphore\<close>, a task inside it runs to its end, or an exception
  is delivered. \<open>Acquire\<close> needs a free slot, as \<open>Semaphore.acquire\<close> does, and
  \<open>Complete\<close> needs the task to hold one; a decision that is not possible in the
  current state changes nothing. Completing a task runs \<open>move_file\<close>, counts it, logs
  progress at every tenth, and leaves \<open>async with\<close>, which releases the slot.
  The only suspension point inside \<open>move_file\<close> is \<open>makedirs\<close>, whose directory
  no collision check of another task can ask for, so running the body in one step loses
  no behaviour.
\<close>

datatype sched_event = Acquire path | Complete path | Interrupt exn

definition step :: "env \<Rightarrow> path \<Rightarrow> nat \<Rightarrow> controller \<Rightarrow> sched_event \<Rightarrow> controller" where
  "step E dest_dir total_files s ev =
     (if raised s \<noteq> None then s
      else case ev of
        Acquire file \<Rightarrow>
          if file \<in> set (pending s) \<and> 0 < semaphore s
          then s\<lparr>semaphore := semaphore s - 1,
                 pending := remove1 file (pending s),
                 running := file # running s\<rparr>
          else s
      | Complete file \<Rightarrow>
          if file \<in> set (running s)
          then (let moved = move_file E file dest_dir (disk s);
                    n = processed_files s + 1
                in s\<lparr>semaphore := semaphore s + 1,
                      running := remove1 file (running s),
                      processed_files := n,
                      disk := fst moved,
                      trace := trace s @ snd moved @
                        (if n mod 10 = 0 then [Log INFO (Progress n total_files)] else [])\<rparr>)
          else s
      | Interrupt e \<Rightarrow> s\<lparr>raised := Some e\<rparr>)"

text \<open>
  \<open>gather\<close> returns when every task is done: after the given schedule the remaining
  tasks are run to their end. \<open>None\<close> is a run that cannot go on because a task waits
  for a slot that nothing will release.
\<close>

function drain :: "env \<Rightarrow> path \<Rightarrow> nat \<Rightarrow> controller \<Rightarrow> controller option" where
  "drain E dest_dir total_files s =
     (if raised s \<noteq> None then Some s
      else case running s of
        file # _ \<Rightarrow> drain E dest_dir total_files (step E dest_dir total_files s (Complete file))
      | [] \<Rightarrow>
          (case pending s of
             [] \<Rightarrow> Some s
           | file # _ \<Rightarrow>
               if 0 < semaphore s
               then drain E dest_dir total_files (step E dest_dir total_files s (Acquire file))
               else None))"
  by pat_completeness auto
termination
  by (relation "measure (\<lambda>(E, d, t, s). 2 * length (pending s) + length (running s))")
     (auto simp: step_def Let_def)

declare drain.simps [simp del]

definition gather ::
  "env \<Rightarrow> path \<Rightarrow> nat \<Rightarrow> sched_event list \<Rightarrow> controller \<Rightarrow> controller option" where
  "gather E dest_dir total_files sched s0 =
     drain E dest_dir total_files (foldl (step E dest_dir total_files) s0 sched)"

text \<open>
  The state in which \<open>gather\<close> starts: \<open>Semaphore(10)\<close>, one task per file, no
  file processed.
\<close>

definition start :: "path list \<Rightarrow> filesystem \<Rightarrow> event list \<Rightarrow> controller" where
  "start files fs0 tr =
     \<lparr>semaphore = 10, pending = files, running = [], processed_files = 0,
      disk = fs0, trace = tr, raised = None\<rparr>"

text \<open>
  What a call leaves behind: the file system, the events, and the exception that
  leaves the call, if any.
\<close>

record outcome =
  final_fs :: filesystem
  events :: "event list"
  exception :: "exn option"

text \<open>
  \<open>process_files\<close> (lines 104 to 139). The per-extension counts are computed from the
  collected files before the tasks are created, and logged sorted after \<open>gather\<close>.
\<close>

definition process_files ::
  "env \<Rightarrow> sched_event list \<Rightarrow> path \<Rightarrow> path \<Rightarrow> node \<Rightarrow> filesystem \<Rightarrow> outcome option" where
  "process_files E sched source_dir dest_dir tree fs0 =
     (let walked = get_all_files source_dir tree; files = fst walked in
      if files = []
      then Some \<lparr>final_fs = fs0, events = snd walked @ [Log WARNING NoAccessibleFiles],
                 exception = None\<rparr>
      else
        (let extension_counts = count_extensions (str_lower E) files;
             total_files = length files
         in case gather E dest_dir total_files sched (start files fs0 (snd walked)) of
              None \<Rightarrow> None
            | Some s \<Rightarrow>
                (case raised s of
                   None \<Rightarrow>
                     Some \<lparr>final_fs = disk s,
                           events = trace s @
                             [Log INFO (ProcessingCompleted total_files),
                              Log INFO FilesProcessedByExtension] @
                             map (\<lambda>(ext, count). Log INFO (ExtensionCount ext count))
                               (sort_key fst extension_counts),
                           exception = None\<rparr>
                 | Some e \<Rightarrow>
                     if is_Exception e
                     then Some \<lparr>final_fs = disk s,
                                events = trace s @ [Log ERROR ErrorDuringFileProcessing],
                                exception = None\<rparr>
                     else Some \<lparr>final_fs = disk s, events = trace s, exception = Some e\<rparr>)))"

text \<open>
  \<open>main\<close> (lines 157 to 180) on resolved paths; \<open>source\<close> is the tree at
  \<open>source_dir\<close>, \<open>None\<close> when nothing exists there. The two checks return before
  the \<open>try\<close> statement, and \<open>create_directory(dest_dir)\<close> stands before it too.
\<close>

definition main ::
  "env \<Rightarrow> sched_event list \<Rightarrow> path \<Rightarrow> path \<Rightarrow> node option \<Rightarrow> filesystem \<Rightarrow> outcome option" where
  "main E sched source_dir dest_dir source fs0 =
     (case source of
        None \<Rightarrow>
          Some \<lparr>final_fs = fs0, events = [Log ERROR (SourceDoesNotExist source_dir)],
                exception = None\<rparr>
      | Some tree \<Rightarrow>
          if source_dir = dest_dir
          then Some \<lparr>final_fs = fs0, events = [Log ERROR SourceAndDestinationSame],
                     exception = None\<rparr>
          else
            (case create_directory E dest_dir fs0 of
               (Some e, fs1, tr) \<Rightarrow>
                 Some \<lparr>final_fs = fs1, events = tr, exception = Some SomeException\<rparr>
             | (None, fs1, tr) \<Rightarrow>
                 (case process_files E sched source_dir dest_dir tree fs1 of
                    None \<Rightarrow> None
                  | Some r \<Rightarrow>
                      (case exception r of
                         None \<Rightarrow> Some (r\<lparr>events := tr @ events r @ [Log INFO ProcessFinished]\<rparr>)
                       | Some KeyboardInterrupt \<Rightarrow>
                           Some (r\<lparr>events := tr @ events r @
                                   [Log INFO ProcessInterrupted, Log INFO ProcessFinished],
                                 exception := None\<rparr>)
                       | Some e \<Rightarrow>
                           if is_Exception e
                           then Some (r\<lparr>events := tr @ events r @
                                        [Log ERROR ProcessFailed, Log INFO ProcessFinished],
                                      exception := None\<rparr>)
                           else Some (r\<lparr>events := tr @ events r @ [Log INFO ProcessFinished]\<rparr>)))))"

section \<open>The word-frequency pipeline (task2.py)\<close>

text \<open>
  The text is a list of characters of any type: lengths, slices and \<open>len(word) > 2\<close>
  count characters. Which characters \<open>\w\<close> matches and what \<open>str.lower\<close> gives go by
  the Unicode tables of the Python runtime, so both are parameters, \<open>is_word\<close> and
  \<open>lower\<close>. On ASCII text \<open>\w\<close> matches the letters, the digits and the
  underscore (\<open>ascii_word\<close>), and \<open>str.lower\<close> is \<open>ascii_lower\<close>.
\<close>

definition ascii_word :: "char \<Rightarrow> bool" where
  "ascii_word c =
     (c \<in> set (''abcdefghijklmnopqrstuvwxyz'' @ ''ABCDEFGHIJKLMNOPQRSTUVWXYZ'' @ ''0123456789_''))"

text \<open>
  \<open>re.findall(r'\b\w+\b', s)\<close>: the maximal runs of word characters, left to right.
  \<open>cur\<close> is the run being read.
\<close>

fun words_from :: "('c \<Rightarrow> bool) \<Rightarrow> 'c list \<Rightarrow> 'c list \<Rightarrow> 'c list list" where
  "words_from is_word cur [] = (if cur = [] then [] else [cur])"
| "words_from is_word cur (c # cs) =
     (if is_word c then words_from is_word (cur @ [c]) cs
      else (if cur = [] then [] else [cur]) @ words_from is_word [] cs)"

definition findall_words :: "('c \<Rightarrow> bool) \<Rightarrow> 'c list \<Rightarrow> 'c list list" where
  "findall_words is_word s = words_from is_word [] s"

text \<open>
  \<open>MapReduce.map_function\<close> (lines 12 to 14).
\<close>

definition map_function ::
  "('c \<Rightarrow> bool) \<Rightarrow> ('c list \<Rightarrow> 'c list) \<Rightarrow> 'c list \<Rightarrow> ('c list \<times> int) list" where
  "map_function is_word lower text =
     (let words = findall_words is_word (lower text)
      in map (\<lambda>word. (word, 1)) (filter (\<lambda>word. length word > 2) words))"

text \<open>
  \<open>word_counts[word] += count\<close> on a \<open>Counter\<close>, kept as an association list in
  insertion order.
\<close>

fun add_count :: "'c list \<Rightarrow> int \<Rightarrow> ('c list \<times> int) list \<Rightarrow> ('c list \<times> int) list" where
  "add_count word count [] = [(word, 0 + count)]"
| "add_count word count ((w, c) # rest) =
     (if w = word then (w, c + count) # rest else (w, c) # add_count word count rest)"

text \<open>
  \<open>MapReduce.reduce_function\<close> (lines 16 to 20).
\<close>

definition reduce_function :: "('c list \<times> int) list \<Rightarrow> ('c list \<times> int) list" where
  "reduce_function mapped_data =
     foldl (\<lambda>word_counts (word, count). add_count word count word_counts) [] mapped_data"

text \<open>
  \<open>[text[i:i + chunk_size] for i in range(0, len(text), chunk_size)]\<close>.
\<close>

function chunks_of :: "nat \<Rightarrow> 'c list \<Rightarrow> 'c list list" where
  "chunks_of chunk_size text =
     (if chunk_size = 0 \<or> text = [] then []
      else take chunk_size text # chunks_of chunk_size (drop chunk_size text))"
  by pat_completeness auto
termination
  by (relation "measure (\<lambda>(n, s). length s)") auto

declare chunks_of.simps [simp del]

text \<open>
  \<open>len(text) // self.num_workers\<close> raises for zero workers.
\<close>

datatype py_error = ZeroDivisionError

text \<open>
  \<open>MapReduce.parallel_map\<close> (lines 22 to 29); \<open>executor.map\<close> keeps the order of
  the chunks.
\<close>

definition parallel_map ::
  "('c \<Rightarrow> bool) \<Rightarrow> ('c list \<Rightarrow> 'c list) \<Rightarrow> nat \<Rightarrow> 'c list \<Rightarrow> py_error + ('c list \<times> int) list" where
  "parallel_map is_word lower num_workers text =
     (if num_workers = 0 then Inl ZeroDivisionError
      else (let chunk_size = max (length text div num_workers) 1;
                chunks = chunks_of chunk_size text;
                mapped_chunks = map (map_function is_word lower) chunks
            in Inr (concat mapped_chunks)))"

text \<open>
  The pipeline as \<open>main\<close> of task2.py runs it (lines 73 to 75), with four workers.
\<close>

definition word_frequencies ::
  "('c \<Rightarrow> bool) \<Rightarrow> ('c list \<Rightarrow> 'c list) \<Rightarrow> 'c list \<Rightarrow> py_error + ('c list \<times> int) list" where
  "word_frequencies is_word lower text =
     (case parallel_map is_word lower 4 text of
        Inl e \<Rightarrow> Inl e
      | Inr mapped_data \<Rightarrow> Inr (reduce_function mapped_data))"

section \<open>Notions the claims are stated with\<close>

text \<open>
  The sequence the specification names for collision resolution: \<open>targetDir/name\<close>, then
  \<open>targetDir/stem_1.ext\<close>, \<open>targetDir/stem_2.ext\<close>, and so on.
\<close>

fun candidate :: "path \<Rightarrow> path \<Rightarrow> nat \<Rightarrow> path" where
  "candidate target_dir source 0 = target_dir @ [name source]"
| "candidate target_dir source (Suc k) =
     target_dir @ [stem source @ ''_'' @ str_nat (Suc k) @ suffix source]"

lemmas candidate_simps = candidate.simps

declare candidate.simps [simp del]

text \<open>
  A directory name the walker does not descend into.
\<close>

definition pruned_name :: "string \<Rightarrow> bool" where
  "pruned_name n = (n \<in> SYSTEM_DIRS \<or> startswith n ''.'')"

text \<open>
  \<open>p\<close> lies strictly under \<open>d\<close> and no directory between \<open>d\<close> and \<open>p\<close>
  has a pruned name.
\<close>

definition kept_under :: "path \<Rightarrow> path \<Rightarrow> bool" where
  "kept_under d p = (\<exists>rel. p = d @ rel \<and> rel \<noteq> [] \<and> (\<forall>c \<in> set (butlast rel). \<not> pruned_name c))"

text \<open>
  A path \<open>p\<close> lies inside the subtree rooted at the directory \<open>take k p\<close> for every
  \<open>k < length p\<close>; the directories of the source tree on the way to \<open>p\<close> are those with
  \<open>length root \<le> k\<close>, the root itself being \<open>k = length root\<close>.
\<close>

definition protected_ancestor :: "path \<Rightarrow> path \<Rightarrow> bool" where
  "protected_ancestor root p = (\<exists>k \<in> {length root..<length p}. name (take k p) \<in> SYSTEM_DIRS)"

definition hidden_ancestor :: "path \<Rightarrow> path \<Rightarrow> bool" where
  "hidden_ancestor root p = (\<exists>k \<in> {length root..<length p}. startswith (name (take k p)) ''.'')"

definition hidden_ancestor_below :: "path \<Rightarrow> path \<Rightarrow> bool" where
  "hidden_ancestor_below root p =
     (\<exists>k \<in> {Suc (length root)..<length p}. startswith (name (take k p)) ''.'')"

text \<open>
  An entry that ends the scan of its directory: it raises an exception other than a
  permission error.
\<close>

definition aborts_scan :: "node \<Rightarrow> bool" where
  "aborts_scan e = (stat_error e = Some OtherError \<or> (is_file e \<and> open_rb e = Some OtherError))"

text \<open>
  Every slot of the semaphore is either free or held by a running task.
\<close>

definition slots_held :: "controller \<Rightarrow> bool" where
  "slots_held s = (semaphore s + length (running s) = 10)"


fun is_summary :: "event \<Rightarrow> bool" where
  "is_summary (Log l (ExtensionCount e c)) = True"
| "is_summary (Log l FilesProcessedByExtension) = True"
| "is_summary ev = False"

fun breakdown :: "event list \<Rightarrow> (string \<times> nat) list" where
  "breakdown [] = []"
| "breakdown (Log l (ExtensionCount e c) # evs) = (e, c) # breakdown evs"
| "breakdown (ev # evs) = breakdown evs"

fun moved_files :: "event list \<Rightarrow> path list" where
  "moved_files [] = []"
| "moved_files (Log l (SuccessfullyMoved src dst) # evs) = src # moved_files evs"
| "moved_files (ev # evs) = moved_files evs"

text \<open>
  The count an association list gives a key, zero when the key is absent.
\<close>

definition count_of :: "(string \<times> nat) list \<Rightarrow> string \<Rightarrow> nat" where
  "count_of counts ext = (case map_of counts ext of None \<Rightarrow> 0 | Some c \<Rightarrow> c)"

text \<open>
  The lines logged after \<open>gather\<close>, and the outcome of \<open>process_files\<close> as a
  function of the state in which \<open>gather\<close> ended.
\<close>

definition summary_lines :: "(string \<Rightarrow> string) \<Rightarrow> path list \<Rightarrow> event list" where
  "summary_lines L files =
     [Log INFO (ProcessingCompleted (length files)), Log INFO FilesProcessedByExtension] @
     map (\<lambda>(ext, count). Log INFO (ExtensionCount ext count))
       (sort_key fst (count_extensions L files))"

definition report :: "(string \<Rightarrow> string) \<Rightarrow> path list \<Rightarrow> controller \<Rightarrow> outcome" where
  "report L files s =
     (case raised s of
        None \<Rightarrow> \<lparr>final_fs = disk s, events = trace s @ summary_lines L files, exception = None\<rparr>
      | Some e \<Rightarrow>
          if is_Exception e
          then \<lparr>final_fs = disk s, events = trace s @ [Log ERROR ErrorDuringFileProcessing],
                exception = None\<rparr>
          else \<lparr>final_fs = disk s, events = trace s, exception = Some e\<rparr>)"

text \<open>
  The entries of a directory the scan gets through: those before the first one that
  ends it.
\<close>

definition scanned :: "(string \<times> node) list \<Rightarrow> (string \<times> node) list" where
  "scanned es = takeWhile (\<lambda>b. \<not> aborts_scan (snd b)) es"

text \<open>
  The walk of a tree reaches the file at the relative path \<open>rel\<close>: the file is a readable
  regular file the scan of its directory gets to, and each directory on the way is an
  entry the scan of its parent gets to, with a name that is not pruned. Nothing is asked
  of the name of the file.
\<close>

inductive walks_to :: "node \<Rightarrow> string list \<Rightarrow> bool" where
  reach_file: "(n, File None) \<in> set (scanned es) \<Longrightarrow> walks_to (Dir es) [n]"
| reach_dir: "(m, Dir sub) \<in> set (scanned es) \<Longrightarrow> \<not> pruned_name m \<Longrightarrow> walks_to (Dir sub) rel \<Longrightarrow>
        walks_to (Dir es) (m # rel)"

text \<open>
  The relocation of \<open>f\<close> was attempted: \<open>shutil.move\<close> was called on it, or creating
  its target directory failed. It was relocated: \<open>shutil.move\<close> was called with a
  destination in the directory of its extension key, and the success was logged. The
  environment permits the relocation when neither creating that directory nor moving the
  file fails. A schedule is uninterrupted when it delivers no exception.
\<close>

definition attempted :: "path \<Rightarrow> event list \<Rightarrow> bool" where
  "attempted f tr =
     ((\<exists>dst. ShutilMove f dst \<in> set tr) \<or> Log ERROR (ErrorProcessingFile f) \<in> set tr)"

definition relocated :: "(string \<Rightarrow> string) \<Rightarrow> path \<Rightarrow> path \<Rightarrow> event list \<Rightarrow> bool" where
  "relocated L dest_dir f tr =
     (\<exists>nm. ShutilMove f (dest_dir @ [extension L f, nm]) \<in> set tr
         \<and> Log INFO (SuccessfullyMoved f (dest_dir @ [extension L f, nm])) \<in> set tr)"

definition permits :: "env \<Rightarrow> path \<Rightarrow> path \<Rightarrow> bool" where
  "permits E dest_dir f =
     (makedirs_error E (dest_dir @ [extension (str_lower E) f]) = None
      \<and> (\<forall>dst. move_error E f dst = None))"

definition uninterrupted :: "sched_event list \<Rightarrow> bool" where
  "uninterrupted sched = (\<forall>e. Interrupt e \<notin> set sched)"

text \<open>
  A file is handled when its relocation was attempted, and done where the environment
  permits it. Every file is waiting, running, or handled.
\<close>

definition handled :: "env \<Rightarrow> path \<Rightarrow> path \<Rightarrow> event list \<Rightarrow> bool" where
  "handled E dest_dir f tr =
     (attempted f tr \<and> (permits E dest_dir f \<longrightarrow> relocated (str_lower E) dest_dir f tr))"

definition accounted :: "env \<Rightarrow> path \<Rightarrow> path list \<Rightarrow> controller \<Rightarrow> bool" where
  "accounted E dest_dir files s =
     (\<forall>f \<in> set files.
        f \<in> set (pending s) \<or> f \<in> set (running s) \<or> handled E dest_dir f (trace s))"

text \<open>
  The lowercase of an ASCII character, by its code: \<open>A..Z\<close> are 65 to 90 and the
  matching small letters are 32 further on; every other character is kept.
\<close>

definition lowercase_of :: "char \<Rightarrow> char \<Rightarrow> bool" where
  "lowercase_of c l =
     (if 65 \<le> (of_char c :: nat) \<and> (of_char c :: nat) \<le> 90
      then (of_char l :: nat) = of_char c + 32 else l = c)"

section \<open>Example inputs\<close>

text \<open>
  Inputs for the examples.
\<close>

definition tree_demo :: node where
  "tree_demo = Dir [(''a.txt'', File None),
                    (''.git'', Dir [(''config'', File None)]),
                    (''Windows'', Dir [(''sys'', Dir [(''x.dll'', File None)])]),
                    (''docs'', Dir [(''b.md'', File None), (''.cache'', Dir [(''c'', File None)])])]"

definition deny_moves :: env where
  "deny_moves =
     \<lparr>makedirs_error = (\<lambda>p. None), move_error = (\<lambda>s d. Some PermissionError),
      lands_as = (\<lambda>s d. Resolves), copy_left = (\<lambda>s d. False), str_lower = ascii_lower\<rparr>"

definition allow_all :: env where
  "allow_all =
     \<lparr>makedirs_error = (\<lambda>p. None), move_error = (\<lambda>s d. None),
      lands_as = (\<lambda>s d. Resolves), copy_left = (\<lambda>s d. False), str_lower = ascii_lower\<rparr>"

definition eleven_files :: "path list" where
  "eleven_files = map (\<lambda>k. [''src'', str_nat k @ ''.txt'']) [0..<11]"

definition one_text_file :: node where
  "one_text_file = Dir [(''a.txt'', File None)]"

definition denied_run :: outcome where
  "denied_run =
     \<lparr>final_fs = [([''dest''], Resolves), ([''dest'', ''txt''], Resolves)],
      events = [Scandir [''src''], OpenRb [''src'', ''a.txt''], Makedirs [''dest'', ''txt''],
                ShutilMove [''src'', ''a.txt''] [''dest'', ''txt'', ''a.txt''],
                Log WARNING (NoPermissionToMove [''src'', ''a.txt'']),
                Log INFO (ProcessingCompleted 1), Log INFO FilesProcessedByExtension,
                Log INFO (ExtensionCount ''txt'' 1)],
      exception = None\<rparr>"

definition hidden_demo :: node where
  "hidden_demo = Dir [(''.git'', Dir [(''config'', File None)]), (''.env'', File None)]"

definition hidden_denied_run :: outcome where
  "hidden_denied_run =
     \<lparr>final_fs = [([''dest''], Resolves), ([''dest'', ''no_extension''], Resolves),
                  ([''src'', ''.env''], Resolves)],
      events = [Scandir [''src''], OpenRb [''src'', ''.env''],
                Makedirs [''dest'', ''no_extension''],
                ShutilMove [''src'', ''.env''] [''dest'', ''no_extension'', ''.env''],
                Log WARNING (NoPermissionToMove [''src'', ''.env'']),
                Log INFO (ProcessingCompleted 1), Log INFO FilesProcessedByExtension,
                Log INFO (ExtensionCount ''no_extension'' 1)],
      exception = None\<rparr>"

definition nested_hidden :: node where
  "nested_hidden =
     Dir [(''notes'', File (Some PermissionError)),
          (''docs'', Dir [(''.env'', File None)])]"

definition broken_then_hidden :: node where
  "broken_then_hidden = Dir [(''broken'', Inaccessible OtherError), (''.env'', File None)]"

section \<open>Facts about the model\<close>

lemma kept_under_entry: "kept_under d (d @ [n])"
  by (simp add: kept_under_def)

lemma kept_under_up: "kept_under (d @ [n]) p \<Longrightarrow> \<not> pruned_name n \<Longrightarrow> kept_under d p"
proof -
  assume "kept_under (d @ [n]) p" and n: "\<not> pruned_name n"
  then obtain rel where rel: "p = (d @ [n]) @ rel" "rel \<noteq> []" "\<forall>c \<in> set (butlast rel). \<not> pruned_name c"
    unfolding kept_under_def by blast
  then have "p = d @ (n # rel) \<and> n # rel \<noteq> [] \<and> (\<forall>c \<in> set (butlast (n # rel)). \<not> pruned_name c)"
    using n by simp
  then show ?thesis unfolding kept_under_def by blast
qed

lemma emit_fst [simp]: "fst (emit evs r) = fst r"
  by (simp add: emit_def)

lemma is_file_not_dir [simp]: "is_file e \<Longrightarrow> \<not> is_dir e"
  by (cases e) simp_all

lemma walker_kept:
  "\<forall>p \<in> set (fst (get_all_files d nd)). kept_under d p"
  "(\<forall>p \<in> set files. kept_under d p) \<Longrightarrow> \<forall>p \<in> set (fst (scan_entries d es files)). kept_under d p"
proof (induction d nd and d es files rule: get_all_files_scan_entries.induct)
  case (1 source_dir nd)
  show ?case
  proof (cases "name source_dir \<in> SYSTEM_DIRS")
    case True
    then show ?thesis by (simp add: get_all_files.simps)
  next
    case False
    show ?thesis
    proof (cases nd)
      case (Dir es)
      with 1[OF False Dir] False show ?thesis by (simp add: get_all_files.simps)
    next
      case (LockedDir e)
      with False show ?thesis by (cases e) (simp_all add: get_all_files.simps)
    qed (use False in \<open>simp_all add: get_all_files.simps\<close>)
  qed
next
  case (2 source_dir files)
  then show ?case by simp
next
  case (3 source_dir entry_name entry rest files)
  show ?case
  proof (cases "stat_error entry")
    case (Some e)
    show ?thesis
    proof (cases e)
      case PermissionError
      with "3.IH"(7)[OF refl Some PermissionError] "3.prems" Some show ?thesis
        by (auto simp: Let_def)
    next
      case OtherError
      with "3.prems" Some show ?thesis by (auto simp: Let_def)
    qed
  next
    case None
    note st = None
    show ?thesis
    proof (cases "is_dir entry \<and> entry_name \<in> SYSTEM_DIRS")
      case True
      with "3.IH"(1)[OF refl st True] "3.prems" st show ?thesis by (auto simp: Let_def)
    next
      case False
      note nsys = False
      show ?thesis
      proof (cases "is_file entry")
        case True
        note isf = True
        show ?thesis
        proof (cases "open_rb entry")
          case None
          have "\<forall>p \<in> set (List.insert (source_dir @ [entry_name]) files). kept_under source_dir p"
            using "3.prems" by (auto simp: kept_under_entry)
          with "3.IH"(2)[OF refl st nsys isf None] st nsys isf None show ?thesis
            by (auto simp: Let_def)
        next
          case (Some e)
          show ?thesis
          proof (cases e)
            case PermissionError
            with "3.IH"(3)[OF refl st nsys isf Some PermissionError] "3.prems" st nsys isf Some
            show ?thesis by (auto simp: Let_def)
          next
            case OtherError
            with "3.prems" st nsys isf Some show ?thesis by (auto simp: Let_def)
          qed
        qed
      next
        case False
        note nf = False
        show ?thesis
        proof (cases "is_dir entry \<and> \<not> startswith entry_name ''.''")
          case True
          note rec = True
          from nsys rec have np: "\<not> pruned_name entry_name" by (simp add: pruned_name_def)
          have sub: "\<forall>p \<in> set (fst (get_all_files (source_dir @ [entry_name]) entry)). kept_under (source_dir @ [entry_name]) p"
            using "3.IH"(4)[OF refl st nsys nf rec] .
          have "\<forall>p \<in> set (List.union (fst (get_all_files (source_dir @ [entry_name]) entry)) files). kept_under source_dir p"
            using sub "3.prems" np by (auto intro: kept_under_up)
          with "3.IH"(5)[OF refl st nsys nf rec refl] st nsys nf rec show ?thesis
            by (auto simp: Let_def)
        next
          case False
          with "3.IH"(6)[OF refl st nsys nf False] "3.prems" st nsys nf show ?thesis
            by (auto simp: Let_def)
        qed
      qed
    qed
  qed
qed

lemma rfind_from_notin: "c \<notin> set s \<Longrightarrow> rfind_from c s i found = found"
  by (induction s arbitrary: i found) auto

lemma rfind_from_append:
  "rfind_from c (a @ b) i found = rfind_from c b (i + int (length a)) (rfind_from c a i found)"
  by (induction a arbitrary: i found) (auto simp: algebra_simps)

lemma rfind_split: "c \<notin> set b \<Longrightarrow> rfind c (a @ c # b) = int (length a)"
  by (simp add: rfind_def rfind_from_append rfind_from_notin)

lemma rfind_none: "c \<notin> set s \<Longrightarrow> rfind c s = - 1"
  by (simp add: rfind_def rfind_from_notin)

lemma rfind_from_cases:
  "rfind_from c s i found = found \<and> c \<notin> set s \<or>
   (\<exists>a b. s = a @ c # b \<and> c \<notin> set b \<and> rfind_from c s i found = i + int (length a))"
proof (induction s arbitrary: i found rule: rev_induct)
  case Nil
  then show ?case by simp
next
  case (snoc x xs)
  show ?case
  proof (cases "x = c")
    case True
    then have "xs @ [x] = xs @ c # [] \<and> c \<notin> set [] \<and>
        rfind_from c (xs @ [x]) i found = i + int (length xs)"
      by (simp add: rfind_from_append)
    then show ?thesis by blast
  next
    case False
    from snoc[of i found] show ?thesis
    proof
      assume "rfind_from c xs i found = found \<and> c \<notin> set xs"
      with False show ?thesis by (simp add: rfind_from_append)
    next
      assume "\<exists>a b. xs = a @ c # b \<and> c \<notin> set b \<and> rfind_from c xs i found = i + int (length a)"
      then obtain a b where "xs = a @ c # b" "c \<notin> set b" "rfind_from c xs i found = i + int (length a)"
        by blast
      with False have "xs @ [x] = a @ c # (b @ [x]) \<and> c \<notin> set (b @ [x]) \<and>
          rfind_from c (xs @ [x]) i found = i + int (length a)"
        by (simp add: rfind_from_append)
      then show ?thesis by blast
    qed
  qed
qed

lemma rfind_cases:
  "rfind c s = - 1 \<and> c \<notin> set s \<or> (\<exists>a b. s = a @ c # b \<and> c \<notin> set b \<and> rfind c s = int (length a))"
  using rfind_from_cases[of c s 0 "- 1"] by (simp add: rfind_def)

lemma suffix_split:
  assumes "name p = st @ CHR ''.'' # ext" "st \<noteq> []" "ext \<noteq> []" "CHR ''.'' \<notin> set ext"
  shows "suffix p = CHR ''.'' # ext" "stem p = st"
  using assms by (simp_all add: suffix_def stem_def rfind_split Let_def)


lemma suffix_cases:
  "suffix p = [] \<and> stem p = name p \<or>
   (\<exists>st ext. name p = st @ CHR ''.'' # ext \<and> st \<noteq> [] \<and> ext \<noteq> [] \<and> CHR ''.'' \<notin> set ext
      \<and> suffix p = CHR ''.'' # ext \<and> stem p = st)"
proof -
  from rfind_cases[of "CHR ''.''" "name p"] show ?thesis
  proof
    assume "rfind CHR ''.'' (name p) = - 1 \<and> CHR ''.'' \<notin> set (name p)"
    then show ?thesis by (simp add: suffix_def stem_def)
  next
    assume "\<exists>a b. name p = a @ CHR ''.'' # b \<and> CHR ''.'' \<notin> set b \<and> rfind CHR ''.'' (name p) = int (length a)"
    then obtain a b where ab: "name p = a @ CHR ''.'' # b" "CHR ''.'' \<notin> set b"
      "rfind CHR ''.'' (name p) = int (length a)" by blast
    show ?thesis
    proof (cases "a \<noteq> [] \<and> b \<noteq> []")
      case True
      with ab suffix_split[of p a b] show ?thesis by blast
    next
      case False
      with ab show ?thesis by (auto simp: suffix_def stem_def Let_def)
    qed
  qed
qed

lemma renamed_candidate: "renamed t s (Suc j) = candidate t s (Suc j)"
  by (simp add: renamed_def new_name_def candidate_simps)

lemma resolve_loop_first_free:
  "(\<forall>i<j. path_exists fs (candidate t s i)) \<Longrightarrow> d = candidate t s j \<Longrightarrow> c = Suc j \<Longrightarrow>
   \<exists>k. resolve_loop fs t s d c = candidate t s k \<and> \<not> path_exists fs (candidate t s k)
       \<and> (\<forall>i<k. path_exists fs (candidate t s i))"
proof (induction fs t s d c arbitrary: j rule: resolve_loop.induct)
  case (1 fs t s d c)
  show ?case
  proof (cases "path_exists fs d")
    case True
    have "\<forall>i<Suc j. path_exists fs (candidate t s i)"
      using "1.prems" True by (auto simp: less_Suc_eq)
    moreover have "renamed t s c = candidate t s (Suc j)"
      using "1.prems" by (simp add: renamed_candidate)
    moreover have "c + 1 = Suc (Suc j)" using "1.prems" by simp
    ultimately have "\<exists>k. resolve_loop fs t s (renamed t s c) (c + 1) = candidate t s k
        \<and> \<not> path_exists fs (candidate t s k) \<and> (\<forall>i<k. path_exists fs (candidate t s i))"
      using "1.IH"[OF True, of "Suc j"] by blast
    with True show ?thesis by (subst resolve_loop.simps) simp
  next
    case False
    with "1.prems" have "resolve_loop fs t s d c = candidate t s j
        \<and> \<not> path_exists fs (candidate t s j) \<and> (\<forall>i<j. path_exists fs (candidate t s i))"
      by (subst resolve_loop.simps) simp
    then show ?thesis by blast
  qed
qed

lemma resolve_first_free:
  "\<exists>k. resolve fs0 target_dir source = candidate target_dir source k
      \<and> \<not> path_exists fs0 (candidate target_dir source k)
      \<and> (\<forall>i<k. path_exists fs0 (candidate target_dir source i))"
  unfolding resolve_def
  by (rule resolve_loop_first_free[where j = 0]) (simp_all add: candidate_simps)






lemma get_all_files_protected_root:
  "name root \<in> SYSTEM_DIRS \<Longrightarrow> fst (get_all_files root tree) = []"
  by (simp add: get_all_files.simps)

lemma kept_under_name:
  assumes "kept_under root p" "length root < k" "k < length p"
  shows "\<not> pruned_name (name (take k p))"
proof -
  from assms(1) obtain rel where rel: "p = root @ rel" "rel \<noteq> []"
      "\<forall>c \<in> set (butlast rel). \<not> pruned_name c"
    unfolding kept_under_def by blast
  define j where "j = k - length root - 1"
  have j: "Suc j = k - length root" "Suc j < length rel" using assms(2,3) rel(1) by (auto simp: j_def)
  have "take k p = root @ take (Suc j) rel" using rel(1) j(1) assms(2) by simp
  moreover have "take (Suc j) rel = take j rel @ [rel ! j]"
    using j(2) by (simp add: take_Suc_conv_app_nth)
  ultimately have "name (take k p) = rel ! j" by (simp add: name_def)
  moreover have "rel ! j \<in> set (butlast rel)"
  proof -
    have "j < length (butlast rel)" using j(2) by simp
    then have "butlast rel ! j \<in> set (butlast rel)" by (rule nth_mem)
    moreover have "butlast rel ! j = rel ! j" using j(2) by (simp add: nth_butlast)
    ultimately show ?thesis by simp
  qed
  ultimately show ?thesis using rel(3) by simp
qed

lemma scan_entries_grows:
  "set files \<subseteq> set (fst (scan_entries d es files))"
proof (induction es arbitrary: files)
  case Nil
  then show ?case by simp
next
  case (Cons a es)
  obtain n e where a: "a = (n, e)" by (cases a)
  have 1: "set files \<subseteq> set (fst (scan_entries d es files))" by (rule Cons.IH)
  have 2: "set files \<subseteq> set (fst (scan_entries d es (List.insert (d @ [n]) files)))"
    using Cons.IH[of "List.insert (d @ [n]) files"] by auto
  have 3: "set files \<subseteq> set (fst (scan_entries d es
      (List.union (fst (get_all_files (d @ [n]) e)) files)))"
    using Cons.IH[of "List.union (fst (get_all_files (d @ [n]) e)) files"] by auto
  show ?case
    unfolding a using 1 2 3
    by (simp add: Let_def split: option.split io_error.split)
qed

lemma scan_entries_continues:
  "\<not> aborts_scan e \<Longrightarrow>
   \<exists>files' evs. scan_entries d ((n, e) # es) files = emit evs (scan_entries d es files')"
proof -
  assume na: "\<not> aborts_scan e"
  have e0: "scan_entries d es files = emit [] (scan_entries d es files)"
    by (simp add: emit_def)
  show ?thesis
  proof (cases "stat_error e")
    case (Some err)
    with na have "err = PermissionError" by (cases err) (simp_all add: aborts_scan_def)
    with Some show ?thesis by (simp add: Let_def) blast
  next
    case None
    note st = None
    show ?thesis
    proof (cases "is_dir e \<and> n \<in> SYSTEM_DIRS")
      case True
      with st show ?thesis by (simp add: Let_def) blast
    next
      case False
      note nsys = False
      show ?thesis
      proof (cases "is_file e")
        case True
        show ?thesis
        proof (cases "open_rb e")
          case None
          with st True show ?thesis by (simp add: Let_def) blast
        next
          case (Some err)
          with na True have "err = PermissionError" by (cases err) (simp_all add: aborts_scan_def)
          with Some st True show ?thesis by (simp add: Let_def) blast
        qed
      next
        case False
        show ?thesis
        proof (cases "is_dir e \<and> \<not> startswith n ''.''")
          case True
          with st nsys False show ?thesis by (auto simp: Let_def)
        next
          case False
          with st nsys \<open>\<not> is_file e\<close> e0 show ?thesis by (auto simp: Let_def)
        qed
      qed
    qed
  qed
qed

lemma scan_entries_collects_file:
  "\<forall>e \<in> set before. \<not> aborts_scan (snd e) \<Longrightarrow>
   d @ [n] \<in> set (fst (scan_entries d (before @ (n, File None) # rest) files))"
proof (induction before arbitrary: files)
  case Nil
  have "d @ [n] \<in> set (List.insert (d @ [n]) files)" by simp
  with scan_entries_grows[of "List.insert (d @ [n]) files" d rest] show ?case
    by (auto simp: Let_def)
next
  case (Cons a before)
  obtain m e where a: "a = (m, e)" by (cases a)
  with Cons.prems have "\<not> aborts_scan e" by simp
  from scan_entries_continues[OF this, of d m "before @ (n, File None) # rest" files]
  obtain files' evs where
    "scan_entries d ((m, e) # before @ (n, File None) # rest) files
       = emit evs (scan_entries d (before @ (n, File None) # rest) files')" by blast
  moreover have "d @ [n] \<in> set (fst (scan_entries d (before @ (n, File None) # rest) files'))"
    using Cons.IH[of files'] Cons.prems by simp
  ultimately show ?case by (simp add: a)
qed

lemma walk_demo:
  "fst (get_all_files [''src''] tree_demo) = [[''src'', ''docs'', ''b.md''], [''src'', ''a.txt'']]"
  by code_simp

text \<open>
  Claim C4 as stated fails for a source root whose own name starts with a dot: the walker
  checks the root's name against the protected set only, so the file below is collected
  although it lies inside the subtree rooted at the hidden directory \<open>.cfg\<close>.
\<close>

lemma walk_cfg:
  "fst (get_all_files [''.cfg''] (Dir [(''a.txt'', File None)])) = [[''.cfg'', ''a.txt'']]"
  by code_simp

lemma slots_held_start: "slots_held (start files fs0 tr)"
  by (simp add: slots_held_def start_def)

lemma length_remove1_mem: "x \<in> set xs \<Longrightarrow> Suc (length (remove1 x xs)) = length xs"
  by (induction xs) auto

lemma slots_held_step: "slots_held s \<Longrightarrow> slots_held (step E d t s ev)"
proof (cases ev)
  case (Acquire f)
  assume "slots_held s"
  then show ?thesis using Acquire by (auto simp: slots_held_def step_def)
next
  case (Complete f)
  assume "slots_held s"
  then show ?thesis using Complete length_remove1_mem[of f "running s"]
    by (auto simp: slots_held_def step_def Let_def)
next
  case (Interrupt e)
  assume "slots_held s"
  then show ?thesis using Interrupt by (auto simp: slots_held_def step_def)
qed

lemma slots_held_run: "slots_held s \<Longrightarrow> slots_held (foldl (step E d t) s sched)"
  by (induction sched arbitrary: s) (simp_all add: slots_held_step)

lemma drain_is_run:
  "slots_held s \<Longrightarrow>
   \<exists>more. drain E d t s = Some (foldl (step E d t) s more) \<and>
     (raised (foldl (step E d t) s more) = None \<longrightarrow>
        pending (foldl (step E d t) s more) = [] \<and> running (foldl (step E d t) s more) = [])"
proof (induction E d t s rule: drain.induct)
  case (1 E d t s)
  show ?case
  proof (cases "raised s \<noteq> None")
    case True
    then have A: "drain E d t s = Some (foldl (step E d t) s [])"
      by (subst drain.simps) simp
    have B: "raised (foldl (step E d t) s []) = None \<longrightarrow>
        pending (foldl (step E d t) s []) = [] \<and> running (foldl (step E d t) s []) = []"
      using True by auto
    show ?thesis by (rule exI[of _ "[]"], rule conjI[OF A B])
  next
    case False
    note nr = False
    show ?thesis
    proof (cases "running s")
      case (Cons f fs')
      let ?s' = "step E d t s (Complete f)"
      from "1.IH"(2)[OF nr Cons slots_held_step[OF "1.prems"]]
      obtain more where m: "drain E d t ?s' = Some (foldl (step E d t) ?s' more)"
        "raised (foldl (step E d t) ?s' more) = None \<longrightarrow>
           pending (foldl (step E d t) ?s' more) = [] \<and> running (foldl (step E d t) ?s' more) = []"
        by auto
      have "drain E d t s = drain E d t ?s'" using nr Cons by (subst drain.simps) simp
      with m have A: "drain E d t s = Some (foldl (step E d t) s (Complete f # more))"
        and B: "raised (foldl (step E d t) s (Complete f # more)) = None \<longrightarrow>
           pending (foldl (step E d t) s (Complete f # more)) = []
           \<and> running (foldl (step E d t) s (Complete f # more)) = []"
        by simp_all
      show ?thesis by (rule exI[of _ "Complete f # more"], rule conjI[OF A B])
    next
      case Nil
      note nrun = Nil
      show ?thesis
      proof (cases "pending s")
        case Nil
        then have A: "drain E d t s = Some (foldl (step E d t) s [])"
          using nr nrun by (subst drain.simps) simp
        have B: "raised (foldl (step E d t) s []) = None \<longrightarrow>
            pending (foldl (step E d t) s []) = [] \<and> running (foldl (step E d t) s []) = []"
          using Nil nrun by simp
        show ?thesis by (rule exI[of _ "[]"], rule conjI[OF A B])
      next
        case (Cons f ps)
        have pos: "0 < semaphore s" using "1.prems" nrun by (simp add: slots_held_def)
        let ?s' = "step E d t s (Acquire f)"
        from "1.IH"(1)[OF nr nrun Cons pos slots_held_step[OF "1.prems"]]
        obtain more where m: "drain E d t ?s' = Some (foldl (step E d t) ?s' more)"
          "raised (foldl (step E d t) ?s' more) = None \<longrightarrow>
             pending (foldl (step E d t) ?s' more) = [] \<and> running (foldl (step E d t) ?s' more) = []"
          by auto
        have "drain E d t s = drain E d t ?s'" using nr nrun Cons pos by (subst drain.simps) simp
        with m have A: "drain E d t s = Some (foldl (step E d t) s (Acquire f # more))"
          and B: "raised (foldl (step E d t) s (Acquire f # more)) = None \<longrightarrow>
             pending (foldl (step E d t) s (Acquire f # more)) = []
             \<and> running (foldl (step E d t) s (Acquire f # more)) = []"
          by simp_all
        show ?thesis by (rule exI[of _ "Acquire f # more"], rule conjI[OF A B])
      qed
    qed
  qed
qed

lemma gather_is_run:
  "\<exists>more. gather E d t sched (start files fs0 tr)
       = Some (foldl (step E d t) (start files fs0 tr) (sched @ more)) \<and>
     (raised (foldl (step E d t) (start files fs0 tr) (sched @ more)) = None \<longrightarrow>
        pending (foldl (step E d t) (start files fs0 tr) (sched @ more)) = [] \<and>
        running (foldl (step E d t) (start files fs0 tr) (sched @ more)) = [])"
  unfolding gather_def
  using drain_is_run[OF slots_held_run[OF slots_held_start], where E = E and d = d and t = t]
  by simp

lemma emit_snd [simp]: "snd (emit evs r) = evs @ snd r"
  by (simp add: emit_def)

lemma scan_trace_no_summary:
  "\<forall>x \<in> set es. \<forall>p. \<forall>ev \<in> set (snd (get_all_files p (snd x))). \<not> is_summary ev \<Longrightarrow>
   \<forall>ev \<in> set (snd (scan_entries d es files)). \<not> is_summary ev"
proof (induction es arbitrary: files)
  case Nil
  then show ?case by simp
next
  case (Cons a es)
  obtain n e where a: "a = (n, e)" by (cases a)
  have sub: "\<forall>ev \<in> set (snd (get_all_files (d @ [n]) e)). \<not> is_summary ev"
    using Cons.prems a by simp
  have rest: "\<And>fl. \<forall>ev \<in> set (snd (scan_entries d es fl)). \<not> is_summary ev"
    using Cons.IH Cons.prems by simp
  show ?case
    unfolding a using sub rest
    by (auto simp: Let_def split: option.splits io_error.splits)
qed

lemma walker_trace_no_summary:
  "\<forall>ev \<in> set (snd (get_all_files p nd)). \<not> is_summary ev"
proof (induction nd arbitrary: p)
  case (Dir es)
  have "\<forall>ev \<in> set (snd (scan_entries p es [])). \<not> is_summary ev"
  proof (rule scan_trace_no_summary, intro ballI allI)
    fix x q ev assume xin: "x \<in> set es" and ev: "ev \<in> set (snd (get_all_files q (snd x)))"
    obtain n e where x: "x = (n, e)" by (cases x)
    have "e \<in> Basic_BNFs.snds x" by (simp add: x)
    from Dir[OF xin this, of q] ev x show "\<not> is_summary ev" by simp
  qed
  then show ?case by (subst get_all_files.simps) simp
next
  case (LockedDir x)
  then show ?case by (subst get_all_files.simps) (simp split: io_error.splits)
qed (subst get_all_files.simps, simp)+

lemma move_file_no_summary: "\<forall>ev \<in> set (snd (move_file E f d fs0)). \<not> is_summary ev"
  by (auto simp: move_file_def create_directory_def Let_def split: option.splits io_error.splits)

lemma step_no_summary:
  "\<forall>ev \<in> set (trace s). \<not> is_summary ev \<Longrightarrow>
   \<forall>ev \<in> set (trace (step E d t s ev0)). \<not> is_summary ev"
  using move_file_no_summary
  by (cases ev0) (auto simp: step_def Let_def)

lemma run_no_summary:
  "\<forall>ev \<in> set (trace s). \<not> is_summary ev \<Longrightarrow>
   \<forall>ev \<in> set (trace (foldl (step E d t) s sched)). \<not> is_summary ev"
proof (induction sched arbitrary: s)
  case Nil
  then show ?case by simp
next
  case (Cons a sched)
  from Cons.IH[OF step_no_summary[OF Cons.prems, of E d t a]] show ?case by simp
qed

lemma breakdown_no_summary: "\<forall>ev \<in> set tr. \<not> is_summary ev \<Longrightarrow> breakdown (tr @ suf) = breakdown suf"
proof (induction tr)
  case Nil
  then show ?case by simp
next
  case (Cons ev tr)
  then have "\<not> is_summary ev" "breakdown (tr @ suf) = breakdown suf" by simp_all
  then show ?case by (cases ev rule: is_summary.cases) simp_all
qed

lemma breakdown_counts:
  "breakdown (map (\<lambda>(ext, count). Log INFO (ExtensionCount ext count)) counts) = counts"
  by (induction counts) auto

lemma count_of_increment:
  "count_of (increment k m) ext = count_of m ext + (if k = ext then 1 else 0)"
  by (induction m) (auto simp: count_of_def)

lemma keys_increment: "fst ` set (increment k m) = insert k (fst ` set m)"
proof (induction m)
  case Nil
  then show ?case by simp
next
  case (Cons a m)
  obtain k' c where a: "a = (k', c)" by (cases a)
  show ?case
  proof (cases "k = k'")
    case True
    then show ?thesis by (simp add: a)
  next
    case False
    then have "fst ` set (increment k (a # m)) = insert k' (fst ` set (increment k m))"
      by (simp add: a)
    also have "\<dots> = insert k' (insert k (fst ` set m))" by (simp only: Cons.IH)
    also have "\<dots> = insert k (fst ` set (a # m))" by (auto simp: a)
    finally show ?thesis .
  qed
qed

lemma distinct_increment: "distinct (map fst m) \<Longrightarrow> distinct (map fst (increment k m))"
proof (induction m)
  case Nil
  then show ?case by simp
next
  case (Cons a m)
  obtain k' c where a: "a = (k', c)" by (cases a)
  show ?case
  proof (cases "k = k'")
    case True
    with Cons.prems a show ?thesis by simp
  next
    case False
    have "k' \<notin> fst ` set (increment k m)"
      using Cons.prems a False by (simp add: keys_increment)
    with Cons a False show ?thesis by simp
  qed
qed

lemma count_of_fold:
  "count_of (foldl (\<lambda>counts file. increment (extension L file) counts) m files) ext
     = count_of m ext + length (filter (\<lambda>f. extension L f = ext) files)"
  by (induction files arbitrary: m) (simp_all add: count_of_increment)

lemma distinct_fold:
  "distinct (map fst m) \<Longrightarrow>
   distinct (map fst (foldl (\<lambda>counts file. increment (extension L file) counts) m files))"
  by (induction files arbitrary: m) (simp_all add: distinct_increment)

lemma count_of_count_extensions:
  "count_of (count_extensions L files) ext = length (filter (\<lambda>f. extension L f = ext) files)"
  unfolding count_extensions_def using count_of_fold[of L "[]" files ext]
  by (simp add: count_of_def)

lemma distinct_count_extensions: "distinct (map fst (count_extensions L files))"
  unfolding count_extensions_def by (rule distinct_fold) simp

lemma distinct_keys_sort: "distinct (map fst m) \<Longrightarrow> distinct (map fst (sort_key fst m))"
  by (simp add: distinct_map)

lemma count_of_sort:
  "distinct (map fst m) \<Longrightarrow> count_of (sort_key fst m) ext = count_of m ext"
proof -
  assume d: "distinct (map fst m)"
  have "map_of (sort_key fst m) = map_of m"
    using map_of_inject_set[OF distinct_keys_sort[OF d] d] by simp
  then show ?thesis by (simp add: count_of_def)
qed

lemma process_files_empty:
  "fst (get_all_files sd tree) = [] \<Longrightarrow>
   process_files E sched sd dd tree fs0 =
     Some \<lparr>final_fs = fs0, events = snd (get_all_files sd tree) @ [Log WARNING NoAccessibleFiles],
           exception = None\<rparr>"
  by (simp add: process_files_def Let_def)

lemma process_files_gathered:
  assumes "fst (get_all_files sd tree) \<noteq> []"
    and "gather E dd (length (fst (get_all_files sd tree))) sched
           (start (fst (get_all_files sd tree)) fs0 (snd (get_all_files sd tree))) = Some s"
  shows "process_files E sched sd dd tree fs0
           = Some (report (str_lower E) (fst (get_all_files sd tree)) s)"
  using assms
  by (simp add: process_files_def Let_def report_def summary_lines_def split: option.split)

lemma process_files_report:
  assumes ne: "fst (get_all_files sd tree) \<noteq> []"
  shows "\<exists>s. (\<forall>ev \<in> set (trace s). \<not> is_summary ev) \<and>
     process_files E sched sd dd tree fs0
       = Some (report (str_lower E) (fst (get_all_files sd tree)) s)"
proof -
  let ?files = "fst (get_all_files sd tree)"
  let ?t = "length ?files"
  let ?init = "start ?files fs0 (snd (get_all_files sd tree))"
  obtain suf where g: "gather E dd ?t sched ?init = Some (foldl (step E dd ?t) ?init (sched @ suf))"
    using gather_is_run[of E dd ?t sched ?files fs0 "snd (get_all_files sd tree)"] by auto
  have "\<forall>ev \<in> set (trace ?init). \<not> is_summary ev"
    using walker_trace_no_summary[of sd tree] by (simp add: start_def)
  then have ns: "\<forall>ev \<in> set (trace (foldl (step E dd ?t) ?init (sched @ suf))). \<not> is_summary ev"
    by (rule run_no_summary)
  from process_files_gathered[OF ne g] ns show ?thesis by (intro exI conjI)
qed

lemma report_header:
  assumes ns: "\<forall>ev \<in> set (trace s). \<not> is_summary ev"
    and hdr: "Log INFO FilesProcessedByExtension \<in> set (events (report L files s))"
  shows "raised s = None"
proof (rule ccontr)
  assume "raised s \<noteq> None"
  then obtain e where e: "raised s = Some e" by auto
  have "Log INFO FilesProcessedByExtension \<in> set (trace s)"
    using hdr e by (cases "is_Exception e") (simp_all add: report_def)
  with ns have "\<not> is_summary (Log INFO FilesProcessedByExtension)" by (rule bspec)
  then show False by simp
qed

lemma breakdown_summary_lines:
  "breakdown (summary_lines L files) = sort_key fst (count_extensions L files)"
  by (simp add: summary_lines_def breakdown_counts)

lemma report_breakdown:
  assumes ns: "\<forall>ev \<in> set (trace s). \<not> is_summary ev" and "raised s = None"
  shows "breakdown (events (report L files s)) = sort_key fst (count_extensions L files)"
proof -
  have "events (report L files s) = trace s @ summary_lines L files"
    using assms(2) by (simp add: report_def)
  then show ?thesis
    by (simp only: breakdown_no_summary[OF ns] breakdown_summary_lines)
qed

lemma walk_one_text_file:
  "get_all_files [''src''] one_text_file
     = ([[''src'', ''a.txt'']], [Scandir [''src''], OpenRb [''src'', ''a.txt'']])"
  by code_simp

lemma extension_a_txt: "extension ascii_lower [''src'', ''a.txt''] = ''txt''"
  by (simp add: extension_def suffix_def name_def rfind_def ascii_lower_def ascii_lower_char_def)

lemma resolve_empty:
  "resolve [([''dest''], Resolves), ([''dest'', ''txt''], Resolves)] [''dest'', ''txt'']
     [''src'', ''a.txt'']
   = [''dest'', ''txt'', ''a.txt'']"
  by (simp add: resolve_def resolve_loop.simps path_exists_def name_def)

lemma denied_move:
  "move_file deny_moves [''src'', ''a.txt''] [''dest''] []
     = ([([''dest''], Resolves), ([''dest'', ''txt''], Resolves)],
        [Makedirs [''dest'', ''txt''],
         ShutilMove [''src'', ''a.txt''] [''dest'', ''txt'', ''a.txt''],
         Log WARNING (NoPermissionToMove [''src'', ''a.txt''])])"
  by (simp add: move_file_def create_directory_def deny_moves_def extension_a_txt with_parents_def
      put_entry_def shutil_move_def resolve_empty upt_rec Let_def)

lemma denied_gather:
  "gather deny_moves [''dest''] t [] (start [[''src'', ''a.txt'']] [] tr)
     = Some \<lparr>semaphore = 10, pending = [], running = [], processed_files = 1,
             disk = [([''dest''], Resolves), ([''dest'', ''txt''], Resolves)],
             trace = tr @ [Makedirs [''dest'', ''txt''],
                ShutilMove [''src'', ''a.txt''] [''dest'', ''txt'', ''a.txt''],
                Log WARNING (NoPermissionToMove [''src'', ''a.txt''])],
             raised = None\<rparr>"
  by (simp add: gather_def start_def drain.simps step_def denied_move Let_def)

lemma str_lower_deny_moves: "str_lower deny_moves = ascii_lower"
  by (simp add: deny_moves_def)

lemma denied_run_eq:
  "process_files deny_moves [] [''src''] [''dest''] one_text_file [] = Some denied_run"
  by (simp add: process_files_def walk_one_text_file denied_gather Let_def denied_run_def
      count_extensions_def extension_a_txt str_lower_deny_moves)

lemma process_files_returns: "\<exists>r. process_files E sched sd dd tree fs0 = Some r"
proof (cases "fst (get_all_files sd tree) = []")
  case True
  from process_files_empty[OF this] show ?thesis by blast
next
  case False
  from process_files_report[OF this, of E sched dd fs0] show ?thesis by blast
qed

lemma main_after_preflight:
  assumes "process_files E sched sd dd tree
             (foldr (\<lambda>q. put_entry q Resolves) (with_parents dd) fs0) = Some r"
    and "sd \<noteq> dd" and "makedirs_error E dd = None"
  shows "\<exists>tail. main E sched sd dd (Some tree) fs0
           = Some (r\<lparr>events := Makedirs dd # events r @ tail @ [Log INFO ProcessFinished],
                     exception := (if exception r = Some KeyboardInterrupt then None
                                   else if exception r = Some SomeException then None
                                   else exception r)\<rparr>)"
proof (cases "exception r")
  case None
  with assms have "main E sched sd dd (Some tree) fs0
      = Some (r\<lparr>events := Makedirs dd # events r @ [] @ [Log INFO ProcessFinished],
                exception := (if exception r = Some KeyboardInterrupt then None
                                   else if exception r = Some SomeException then None
                                   else exception r)\<rparr>)"
    by (simp add: main_def create_directory_def)
  then show ?thesis by (rule exI)
next
  case (Some e)
  show ?thesis
  proof (cases e)
    case SomeException
    with Some assms have "main E sched sd dd (Some tree) fs0
      = Some (r\<lparr>events := Makedirs dd # events r @ [Log ERROR ProcessFailed] @ [Log INFO ProcessFinished],
                exception := (if exception r = Some KeyboardInterrupt then None
                                   else if exception r = Some SomeException then None
                                   else exception r)\<rparr>)"
      by (simp add: main_def create_directory_def is_Exception_def)
    then show ?thesis by (rule exI)
  next
    case KeyboardInterrupt
    with Some assms have "main E sched sd dd (Some tree) fs0
      = Some (r\<lparr>events := Makedirs dd # events r @ [Log INFO ProcessInterrupted] @ [Log INFO ProcessFinished],
                exception := (if exception r = Some KeyboardInterrupt then None
                                   else if exception r = Some SomeException then None
                                   else exception r)\<rparr>)"
      by (simp add: main_def create_directory_def is_Exception_def)
    then show ?thesis by (rule exI)
  next
    case CancelledError
    with Some assms have "main E sched sd dd (Some tree) fs0
      = Some (r\<lparr>events := Makedirs dd # events r @ [] @ [Log INFO ProcessFinished],
                exception := (if exception r = Some KeyboardInterrupt then None
                                   else if exception r = Some SomeException then None
                                   else exception r)\<rparr>)"
      by (simp add: main_def create_directory_def is_Exception_def)
    then show ?thesis by (rule exI)
  qed
qed

lemma attempted_mono: "attempted f tr \<Longrightarrow> set tr \<subseteq> set tr' \<Longrightarrow> attempted f tr'"
  by (auto simp: attempted_def)

lemma relocated_mono: "relocated L d f tr \<Longrightarrow> set tr \<subseteq> set tr' \<Longrightarrow> relocated L d f tr'"
proof -
  assume r: "relocated L d f tr" and sub: "set tr \<subseteq> set tr'"
  from r obtain nm where "ShutilMove f (d @ [extension L f, nm]) \<in> set tr"
    "Log INFO (SuccessfullyMoved f (d @ [extension L f, nm])) \<in> set tr"
    unfolding relocated_def by blast
  with sub have "ShutilMove f (d @ [extension L f, nm]) \<in> set tr'
      \<and> Log INFO (SuccessfullyMoved f (d @ [extension L f, nm])) \<in> set tr'" by blast
  then show ?thesis unfolding relocated_def by (rule exI)
qed

lemma handled_mono: "handled E d f tr \<Longrightarrow> set tr \<subseteq> set tr' \<Longrightarrow> handled E d f tr'"
  unfolding handled_def using attempted_mono[of f tr tr'] relocated_mono[of "str_lower E" d f tr tr']
  by blast

lemma move_file_attempted: "attempted f (snd (move_file E f d fs0))"
  by (auto simp: attempted_def move_file_def create_directory_def Let_def
      split: option.splits io_error.splits)

lemma resolve_in_target: "\<exists>nm. resolve fs0 t s = t @ [nm]"
proof -
  from resolve_first_free[of fs0 t s] obtain k where "resolve fs0 t s = candidate t s k" by blast
  then show ?thesis by (cases k) (simp_all add: candidate_simps)
qed

lemma move_file_permitted:
  assumes "permits E d f"
  shows "\<exists>nm. move_file E f d fs0 =
     (shutil_move E f (d @ [extension (str_lower E) f, nm])
        (foldr (\<lambda>q. put_entry q Resolves) (with_parents (d @ [extension (str_lower E) f])) fs0),
      [Makedirs (d @ [extension (str_lower E) f]),
       ShutilMove f (d @ [extension (str_lower E) f, nm]),
       Log INFO (SuccessfullyMoved f (d @ [extension (str_lower E) f, nm]))])"
proof -
  let ?t = "d @ [extension (str_lower E) f]"
  let ?fs1 = "foldr (\<lambda>q. put_entry q Resolves) (with_parents ?t) fs0"
  from assms have mk: "makedirs_error E ?t = None" and mv: "\<And>dst. move_error E f dst = None"
    by (simp_all add: permits_def)
  obtain nm where nm: "resolve ?fs1 ?t f = ?t @ [nm]" using resolve_in_target by blast
  have "move_file E f d fs0 =
     (shutil_move E f (d @ [extension (str_lower E) f, nm]) ?fs1,
      [Makedirs ?t, ShutilMove f (d @ [extension (str_lower E) f, nm]),
       Log INFO (SuccessfullyMoved f (d @ [extension (str_lower E) f, nm]))])"
    using mk mv nm by (simp add: move_file_def create_directory_def Let_def)
  then show ?thesis by (rule exI)
qed

lemma move_file_relocated:
  assumes "permits E d f"
  shows "relocated (str_lower E) d f (snd (move_file E f d fs0))"
proof -
  from move_file_permitted[OF assms, of fs0] obtain nm where
    "snd (move_file E f d fs0) =
      [Makedirs (d @ [extension (str_lower E) f]),
       ShutilMove f (d @ [extension (str_lower E) f, nm]),
       Log INFO (SuccessfullyMoved f (d @ [extension (str_lower E) f, nm]))]" by auto
  then have "ShutilMove f (d @ [extension (str_lower E) f, nm]) \<in> set (snd (move_file E f d fs0))
      \<and> Log INFO (SuccessfullyMoved f (d @ [extension (str_lower E) f, nm]))
          \<in> set (snd (move_file E f d fs0))" by simp
  then show ?thesis unfolding relocated_def by (rule exI)
qed

lemma move_file_handled: "handled E d f (snd (move_file E f d fs0))"
  using move_file_attempted[of f E d fs0] move_file_relocated[of E d f fs0]
  by (simp add: handled_def)

lemma accounted_start: "accounted E d files (start files fs0 tr)"
  by (simp add: accounted_def start_def)

lemma in_remove1_other: "x \<in> set xs \<Longrightarrow> x \<noteq> y \<Longrightarrow> x \<in> set (remove1 y xs)"
  by simp

lemma accounted_step: "accounted E d files s \<Longrightarrow> accounted E d files (step E d t s ev)"
proof (cases "raised s")
  case (Some e)
  assume "accounted E d files s"
  with Some show ?thesis by (simp add: step_def)
next
  case None
  assume acc: "accounted E d files s"
  show ?thesis
  proof (cases ev)
    case (Acquire g)
    show ?thesis
    proof (cases "g \<in> set (pending s) \<and> 0 < semaphore s")
      case True
      have "\<forall>f \<in> set files. f \<in> set (remove1 g (pending s)) \<or> f \<in> set (g # running s)
          \<or> handled E d f (trace s)"
      proof
        fix f assume "f \<in> set files"
        with acc have "f \<in> set (pending s) \<or> f \<in> set (running s) \<or> handled E d f (trace s)"
          by (simp add: accounted_def)
        then show "f \<in> set (remove1 g (pending s)) \<or> f \<in> set (g # running s)
          \<or> handled E d f (trace s)"
          by (cases "f = g") auto
      qed
      with None Acquire True show ?thesis by (simp add: step_def accounted_def)
    next
      case False
      with None Acquire acc show ?thesis by (auto simp: step_def)
    qed
  next
    case (Complete g)
    show ?thesis
    proof (cases "g \<in> set (running s)")
      case True
      have "\<And>X. \<forall>f \<in> set files. f \<in> set (pending s) \<or> f \<in> set (remove1 g (running s))
          \<or> handled E d f (trace s @ snd (move_file E g d (disk s)) @ X)"
      proof -
        fix X show "\<forall>f \<in> set files. f \<in> set (pending s) \<or> f \<in> set (remove1 g (running s))
          \<or> handled E d f (trace s @ snd (move_file E g d (disk s)) @ X)"
        proof
        fix f assume fin: "f \<in> set files"
        let ?tr = "trace s @ snd (move_file E g d (disk s)) @ X"
        from fin acc have c: "f \<in> set (pending s) \<or> f \<in> set (running s) \<or> handled E d f (trace s)"
          by (simp add: accounted_def)
        show "f \<in> set (pending s) \<or> f \<in> set (remove1 g (running s)) \<or> handled E d f ?tr"
        proof (cases "f = g")
          case True
          have "handled E d g (snd (move_file E g d (disk s)))" by (rule move_file_handled)
          then have "handled E d g ?tr" by (rule handled_mono) auto
          with True show ?thesis by simp
        next
          case False
          from c show ?thesis
          proof (elim disjE)
            assume "handled E d f (trace s)"
            then have "handled E d f ?tr" by (rule handled_mono) auto
            then show ?thesis by simp
          qed (use False in auto)
        qed
        qed
      qed
      with None Complete True show ?thesis by (simp add: step_def accounted_def Let_def)
    next
      case False
      with None Complete acc show ?thesis by (simp add: step_def)
    qed
  next
    case (Interrupt e)
    with None acc show ?thesis by (simp add: step_def accounted_def)
  qed
qed

lemma accounted_run:
  "accounted E d files s \<Longrightarrow> accounted E d files (foldl (step E d t) s sched)"
  by (induction sched arbitrary: s) (simp_all add: accounted_step)

lemma step_raised:
  "raised s = None \<Longrightarrow> \<forall>e. ev \<noteq> Interrupt e \<Longrightarrow> raised (step E d t s ev) = None"
  by (cases ev) (simp_all add: step_def Let_def)

lemma run_uninterrupted:
  "raised s = None \<Longrightarrow> uninterrupted sched \<Longrightarrow> raised (foldl (step E d t) s sched) = None"
proof (induction sched arbitrary: s)
  case Nil
  then show ?case by simp
next
  case (Cons a sched)
  from Cons.prems(2) have a: "\<forall>e. a \<noteq> Interrupt e" and u: "uninterrupted sched"
    by (auto simp: uninterrupted_def)
  from Cons.IH[OF step_raised[OF Cons.prems(1) a] u] show ?case by simp
qed

lemma drain_raised: "drain E d t s = Some s' \<Longrightarrow> raised s = None \<Longrightarrow> raised s' = None"
proof (induction E d t s rule: drain.induct)
  case (1 E d t s)
  from "1.prems"(2) have nr: "\<not> raised s \<noteq> None" by simp
  show ?case
  proof (cases "running s")
    case (Cons f rs)
    let ?n = "step E d t s (Complete f)"
    have "drain E d t s = drain E d t ?n" using nr Cons by (subst drain.simps) simp
    with "1.prems"(1) have dn: "drain E d t ?n = Some s'" by simp
    have rn: "raised ?n = None" by (rule step_raised[OF "1.prems"(2)]) simp
    from "1.IH"(2)[OF nr Cons dn rn] show ?thesis .
  next
    case Nil
    note nrun = Nil
    show ?thesis
    proof (cases "pending s")
      case Nil
      then have "drain E d t s = Some s" using nr nrun by (subst drain.simps) simp
      with "1.prems" show ?thesis by simp
    next
      case (Cons f ps)
      show ?thesis
      proof (cases "0 < semaphore s")
        case True
        let ?n = "step E d t s (Acquire f)"
        have "drain E d t s = drain E d t ?n" using nr nrun Cons True by (subst drain.simps) simp
        with "1.prems"(1) have dn: "drain E d t ?n = Some s'" by simp
        have rn: "raised ?n = None" by (rule step_raised[OF "1.prems"(2)]) simp
        from "1.IH"(1)[OF nr nrun Cons True dn rn] show ?thesis .
      next
        case False
        then have "drain E d t s = None" using nr nrun Cons by (subst drain.simps) simp
        with "1.prems"(1) show ?thesis by simp
      qed
    qed
  qed
qed

lemma gather_uninterrupted:
  assumes "uninterrupted sched" and "gather E d t sched (start files fs0 tr) = Some s"
  shows "raised s = None"
proof -
  have "raised (start files fs0 tr) = None" by (simp add: start_def)
  then have "raised (foldl (step E d t) (start files fs0 tr) sched) = None"
    using assms(1) by (rule run_uninterrupted)
  with assms(2) show ?thesis unfolding gather_def by (rule drain_raised)
qed

lemma process_files_run:
  assumes ne: "fst (get_all_files sd tree) \<noteq> []"
  shows "\<exists>s. process_files E sched sd dd tree fs0
         = Some (report (str_lower E) (fst (get_all_files sd tree)) s)
     \<and> (\<forall>ev \<in> set (trace s). \<not> is_summary ev)
     \<and> accounted E dd (fst (get_all_files sd tree)) s
     \<and> (raised s = None \<longrightarrow> pending s = [] \<and> running s = [])
     \<and> gather E dd (length (fst (get_all_files sd tree))) sched
          (start (fst (get_all_files sd tree)) fs0 (snd (get_all_files sd tree))) = Some s"
proof -
  let ?files = "fst (get_all_files sd tree)"
  let ?t = "length ?files"
  let ?init = "start ?files fs0 (snd (get_all_files sd tree))"
  from gather_is_run[of E dd ?t sched ?files fs0 "snd (get_all_files sd tree)"]
  obtain suf where g: "gather E dd ?t sched ?init = Some (foldl (step E dd ?t) ?init (sched @ suf))"
    and fin: "raised (foldl (step E dd ?t) ?init (sched @ suf)) = None \<longrightarrow>
        pending (foldl (step E dd ?t) ?init (sched @ suf)) = [] \<and>
        running (foldl (step E dd ?t) ?init (sched @ suf)) = []" by auto
  have acc: "accounted E dd ?files (foldl (step E dd ?t) ?init (sched @ suf))"
    by (rule accounted_run[OF accounted_start])
  have "\<forall>ev \<in> set (trace ?init). \<not> is_summary ev"
    using walker_trace_no_summary[of sd tree] by (simp add: start_def)
  then have ns: "\<forall>ev \<in> set (trace (foldl (step E dd ?t) ?init (sched @ suf))). \<not> is_summary ev"
    by (rule run_no_summary)
  from process_files_gathered[OF ne g] ns acc fin g show ?thesis by (intro exI conjI)
qed

lemma report_trace_subset: "set (trace s) \<subseteq> set (events (report L files s))"
  by (auto simp: report_def split: option.splits)

lemma collected_files_are_handled:
  assumes r: "process_files E sched sd dd tree fs0 = Some r"
    and u: "uninterrupted sched"
    and f: "f \<in> set (fst (get_all_files sd tree))"
  shows "handled E dd f (events r)"
proof -
  let ?files = "fst (get_all_files sd tree)"
  from f have ne: "?files \<noteq> []" by auto
  from process_files_run[OF ne, of E sched dd fs0] obtain s where
    s: "process_files E sched sd dd tree fs0 = Some (report (str_lower E) ?files s)"
    "accounted E dd ?files s" "raised s = None \<longrightarrow> pending s = [] \<and> running s = []"
    "gather E dd (length ?files) sched (start ?files fs0 (snd (get_all_files sd tree))) = Some s"
    by auto
  from s(1) r have req: "r = report (str_lower E) ?files s" by simp
  from gather_uninterrupted[OF u s(4)] have "raised s = None" .
  with s(3) have "pending s = []" "running s = []" by simp_all
  with s(2) f have "handled E dd f (trace s)" by (simp add: accounted_def)
  then have "handled E dd f (events (report (str_lower E) ?files s))"
    using report_trace_subset[of s "str_lower E" ?files] by (rule handled_mono)
  with req show ?thesis by simp
qed

lemma in_takeWhile_split:
  "x \<in> set (takeWhile P xs) \<Longrightarrow> \<exists>ys zs. xs = ys @ x # zs \<and> (\<forall>y \<in> set ys. P y)"
proof (induction xs)
  case Nil
  then show ?case by simp
next
  case (Cons a xs)
  from Cons.prems have pa: "P a" by (cases "P a") simp_all
  show ?case
  proof (cases "x = a")
    case True
    have "a # xs = [] @ x # xs \<and> (\<forall>y \<in> set []. P y)" using True by simp
    then show ?thesis by blast
  next
    case False
    with Cons.prems pa have "x \<in> set (takeWhile P xs)" by simp
    from Cons.IH[OF this] obtain ys zs where "xs = ys @ x # zs" "\<forall>y \<in> set ys. P y" by blast
    with pa have "a # xs = (a # ys) @ x # zs \<and> (\<forall>y \<in> set (a # ys). P y)" by simp
    then show ?thesis by blast
  qed
qed

lemma scan_entries_collects_dir:
  "\<forall>e \<in> set before. \<not> aborts_scan (snd e) \<Longrightarrow> \<not> pruned_name m \<Longrightarrow>
   set (fst (get_all_files (d @ [m]) (Dir sub)))
     \<subseteq> set (fst (scan_entries d (before @ (m, Dir sub) # rest) files))"
proof (induction before arbitrary: files)
  case Nil
  from Nil.prems(2) have m: "m \<notin> SYSTEM_DIRS" "\<not> startswith m ''.''"
    by (simp_all add: pruned_name_def)
  have "set (fst (get_all_files (d @ [m]) (Dir sub)))
      \<subseteq> set (List.union (fst (get_all_files (d @ [m]) (Dir sub))) files)" by simp
  also have "\<dots> \<subseteq> set (fst (scan_entries d rest
      (List.union (fst (get_all_files (d @ [m]) (Dir sub))) files)))"
    by (rule scan_entries_grows)
  finally show ?case using m by (simp add: Let_def)
next
  case (Cons a before)
  obtain k e where a: "a = (k, e)" by (cases a)
  with Cons.prems have "\<not> aborts_scan e" by simp
  from scan_entries_continues[OF this, of d k "before @ (m, Dir sub) # rest" files]
  obtain files' evs where
    "scan_entries d ((k, e) # before @ (m, Dir sub) # rest) files
       = emit evs (scan_entries d (before @ (m, Dir sub) # rest) files')" by blast
  moreover have "set (fst (get_all_files (d @ [m]) (Dir sub)))
      \<subseteq> set (fst (scan_entries d (before @ (m, Dir sub) # rest) files'))"
    using Cons.IH[of files'] Cons.prems by simp
  ultimately show ?case by (simp add: a)
qed

lemma walker_reaches:
  "walks_to tree rel \<Longrightarrow> name root \<notin> SYSTEM_DIRS \<Longrightarrow>
   root @ rel \<in> set (fst (get_all_files root tree))"
proof (induction arbitrary: root rule: walks_to.induct)
  case (reach_file n es)
  from in_takeWhile_split[OF reach_file.hyps[unfolded scanned_def]]
  obtain before rest where es: "es = before @ (n, File None) # rest"
    and ok: "\<forall>e \<in> set before. \<not> aborts_scan (snd e)" by blast
  from scan_entries_collects_file[OF ok, of root n rest "[]"]
  show ?case using reach_file.prems unfolding es
    by (subst get_all_files.simps) simp
next
  case (reach_dir m sub es rel)
  from in_takeWhile_split[OF reach_dir.hyps(1)[unfolded scanned_def]]
  obtain before rest where es: "es = before @ (m, Dir sub) # rest"
    and ok: "\<forall>e \<in> set before. \<not> aborts_scan (snd e)" by blast
  from reach_dir.hyps(2) have "name (root @ [m]) \<notin> SYSTEM_DIRS"
    by (simp add: pruned_name_def name_def)
  from reach_dir.IH[OF this]
  have "root @ m # rel \<in> set (fst (get_all_files (root @ [m]) (Dir sub)))" by simp
  with scan_entries_collects_dir[OF ok reach_dir.hyps(2), of root sub rest "[]"]
  have "root @ m # rel \<in> set (fst (scan_entries root es []))" unfolding es by blast
  then show ?case using reach_dir.prems
    by (subst get_all_files.simps) simp
qed

lemma walk_hidden_demo:
  "get_all_files [''src''] hidden_demo
     = ([[''src'', ''.env'']], [Scandir [''src''], OpenRb [''src'', ''.env'']])"
  by code_simp

lemma walk_broken_then_hidden: "fst (get_all_files [''src''] broken_then_hidden) = []"
  by code_simp

lemma extension_env: "extension L [''src'', ''.env''] = ''no_extension''"
  by (simp add: extension_def suffix_def name_def rfind_def)

lemma resolve_env:
  "resolve [([''dest''], Resolves), ([''dest'', ''no_extension''], Resolves),
            ([''src'', ''.env''], Resolves)]
     [''dest'', ''no_extension''] [''src'', ''.env'']
     = [''dest'', ''no_extension'', ''.env'']"
  by (simp add: resolve_def resolve_loop.simps path_exists_def name_def)

lemma hidden_move:
  "move_file deny_moves [''src'', ''.env''] [''dest''] [([''src'', ''.env''], Resolves)]
     = ([([''dest''], Resolves), ([''dest'', ''no_extension''], Resolves),
         ([''src'', ''.env''], Resolves)],
        [Makedirs [''dest'', ''no_extension''],
         ShutilMove [''src'', ''.env''] [''dest'', ''no_extension'', ''.env''],
         Log WARNING (NoPermissionToMove [''src'', ''.env''])])"
  by (simp add: move_file_def create_directory_def deny_moves_def extension_env with_parents_def
      put_entry_def shutil_move_def resolve_env upt_rec Let_def)

lemma hidden_gather:
  "gather deny_moves [''dest''] t [] (start [[''src'', ''.env'']] [([''src'', ''.env''], Resolves)] tr)
     = Some \<lparr>semaphore = 10, pending = [], running = [], processed_files = 1,
             disk = [([''dest''], Resolves), ([''dest'', ''no_extension''], Resolves),
                     ([''src'', ''.env''], Resolves)],
             trace = tr @ [Makedirs [''dest'', ''no_extension''],
                ShutilMove [''src'', ''.env''] [''dest'', ''no_extension'', ''.env''],
                Log WARNING (NoPermissionToMove [''src'', ''.env''])],
             raised = None\<rparr>"
  by (simp add: gather_def start_def drain.simps step_def hidden_move Let_def)

lemma hidden_denied_run_eq:
  "process_files deny_moves [] [''src''] [''dest''] hidden_demo [([''src'', ''.env''], Resolves)]
     = Some hidden_denied_run"
  by (simp add: process_files_def walk_hidden_demo hidden_gather Let_def hidden_denied_run_def
      count_extensions_def extension_env)

lemma chunks_hello: "chunks_of 3 ''hello world!'' = [''hel'', ''lo '', ''wor'', ''ld!'']"
  by (simp add: chunks_of.simps)

lemma map_chunks_hello:
  "map_function ascii_word ascii_lower ''hel'' = [(''hel'', 1)]"
  "map_function ascii_word ascii_lower ''lo '' = []"
  "map_function ascii_word ascii_lower ''wor'' = [(''wor'', 1)]"
  "map_function ascii_word ascii_lower ''ld!'' = []"
  by (simp_all add: map_function_def findall_words_def ascii_lower_def ascii_lower_char_def
      ascii_word_def)

lemma upper_letters:
  "65 \<le> (of_char c :: nat) \<Longrightarrow> (of_char c :: nat) \<le> 90 \<Longrightarrow> c \<in> set ''ABCDEFGHIJKLMNOPQRSTUVWXYZ''"
proof -
  assume "65 \<le> (of_char c :: nat)" "(of_char c :: nat) \<le> 90"
  then have "(of_char c :: nat) = 65 \<or> (of_char c :: nat) = 66 \<or> (of_char c :: nat) = 67
    \<or> (of_char c :: nat) = 68 \<or> (of_char c :: nat) = 69 \<or> (of_char c :: nat) = 70
    \<or> (of_char c :: nat) = 71 \<or> (of_char c :: nat) = 72 \<or> (of_char c :: nat) = 73
    \<or> (of_char c :: nat) = 74 \<or> (of_char c :: nat) = 75 \<or> (of_char c :: nat) = 76
    \<or> (of_char c :: nat) = 77 \<or> (of_char c :: nat) = 78 \<or> (of_char c :: nat) = 79
    \<or> (of_char c :: nat) = 80 \<or> (of_char c :: nat) = 81 \<or> (of_char c :: nat) = 82
    \<or> (of_char c :: nat) = 83 \<or> (of_char c :: nat) = 84 \<or> (of_char c :: nat) = 85
    \<or> (of_char c :: nat) = 86 \<or> (of_char c :: nat) = 87 \<or> (of_char c :: nat) = 88
    \<or> (of_char c :: nat) = 89 \<or> (of_char c :: nat) = 90" by arith
  then have "(of_char c :: nat) \<in> of_char ` set ''ABCDEFGHIJKLMNOPQRSTUVWXYZ''"
    by (elim disjE) simp_all
  then obtain l where "l \<in> set ''ABCDEFGHIJKLMNOPQRSTUVWXYZ''" "(of_char c :: nat) = of_char l"
    by blast
  then show ?thesis by (simp only: of_char_eq_iff)
qed

lemma ascii_lower_char_lowercase: "lowercase_of c (ascii_lower_char c)"
proof (cases "c \<in> set ''ABCDEFGHIJKLMNOPQRSTUVWXYZ''")
  case True
  then have "c = CHR ''A'' \<or> c = CHR ''B'' \<or> c = CHR ''C'' \<or> c = CHR ''D'' \<or> c = CHR ''E''
    \<or> c = CHR ''F'' \<or> c = CHR ''G'' \<or> c = CHR ''H'' \<or> c = CHR ''I'' \<or> c = CHR ''J''
    \<or> c = CHR ''K'' \<or> c = CHR ''L'' \<or> c = CHR ''M'' \<or> c = CHR ''N'' \<or> c = CHR ''O''
    \<or> c = CHR ''P'' \<or> c = CHR ''Q'' \<or> c = CHR ''R'' \<or> c = CHR ''S'' \<or> c = CHR ''T''
    \<or> c = CHR ''U'' \<or> c = CHR ''V'' \<or> c = CHR ''W'' \<or> c = CHR ''X'' \<or> c = CHR ''Y''
    \<or> c = CHR ''Z''" by simp
  then show ?thesis
    by (elim disjE) (simp_all add: lowercase_of_def ascii_lower_char_def)
next
  case False
  have len: "length ''ABCDEFGHIJKLMNOPQRSTUVWXYZ'' = length ''abcdefghijklmnopqrstuvwxyz''"
    by simp
  have "map_of (zip ''ABCDEFGHIJKLMNOPQRSTUVWXYZ'' ''abcdefghijklmnopqrstuvwxyz'') c = None"
    by (rule iffD2[OF map_of_zip_is_None[OF len]]) (rule False)
  then have "ascii_lower_char c = c" by (simp only: ascii_lower_char_def option.case)
  moreover from False upper_letters[of c] have "\<not> (65 \<le> (of_char c :: nat) \<and> (of_char c :: nat) \<le> 90)"
    by blast
  ultimately show ?thesis by (simp add: lowercase_of_def)
qed

lemma lowers_ascii_ascii_lower: "lowers_ascii ascii_lower"
  by (simp add: lowers_ascii_def)

lemma extension_lowercase:
  assumes sp: "suffix p = ''.'' @ ext" and la: "lowers_ascii L" and asc: "list_all is_ascii ext"
  shows "length (extension L p) = length ext
     \<and> (\<forall>i<length ext. lowercase_of (ext ! i) (extension L p ! i))"
proof -
  from sp have "extension L p = L ext" by (simp add: extension_def)
  also from la asc have "L ext = ascii_lower ext" by (simp add: lowers_ascii_def)
  finally have e: "extension L p = map ascii_lower_char ext" by (simp add: ascii_lower_def)
  show ?thesis unfolding e by (simp add: ascii_lower_char_lowercase)
qed


lemma shutil_move_effect:
  assumes "move_error E f dst = None"
  shows "has_entry (shutil_move E f dst fs0) dst
     \<and> (f \<noteq> dst \<longrightarrow> \<not> has_entry (shutil_move E f dst fs0) f)"
proof -
  have "f \<notin> fst ` set (filter (\<lambda>b. fst b \<noteq> dst) (filter (\<lambda>b. fst b \<noteq> f) fs0))" by auto
  then have "map_of (filter (\<lambda>b. fst b \<noteq> dst) (filter (\<lambda>b. fst b \<noteq> f) fs0)) f = None"
    by (simp add: map_of_eq_None_iff)
  with assms show ?thesis
    by (simp add: shutil_move_def put_entry_def drop_entry_def has_entry_def)
qed





section \<open>The claims\<close>

subsection \<open>C1\<close>

text \<open>
  Claim C1, as amended. Whenever the summary is logged, the per-extension breakdown is the
  sorted count of all discovered files by extension key: each key is logged with the
  number of files the walker collected under it. The counts are taken from the walk,
  before any move, and depend neither on the schedule nor on which moves succeed.
\<close>

theorem breakdown_counts_discovered_files:
  "process_files E sched source_dir dest_dir tree fs0 = Some r \<Longrightarrow>
   Log INFO FilesProcessedByExtension \<in> set (events r) \<Longrightarrow>
   breakdown (events r) = sort_key fst (count_extensions (str_lower E) (fst (get_all_files source_dir tree))) \<and>
   (\<forall>ext. count_of (breakdown (events r)) ext
      = length (filter (\<lambda>f. extension (str_lower E) f = ext) (fst (get_all_files source_dir tree))))"
proof -
  assume r: "process_files E sched source_dir dest_dir tree fs0 = Some r"
    and hdr: "Log INFO FilesProcessedByExtension \<in> set (events r)"
  let ?files = "fst (get_all_files source_dir tree)"
  have ne: "?files \<noteq> []"
  proof
    assume "?files = []"
    from process_files_empty[OF this, of E sched dest_dir fs0] r
    have "events r = snd (get_all_files source_dir tree) @ [Log WARNING NoAccessibleFiles]"
      by auto
    with hdr have "Log INFO FilesProcessedByExtension \<in> set (snd (get_all_files source_dir tree))"
      by simp
    with walker_trace_no_summary[of source_dir tree]
    have "\<not> is_summary (Log INFO FilesProcessedByExtension)" by (rule bspec)
    then show False by simp
  qed
  from process_files_report[OF ne, of E sched dest_dir fs0]
  obtain s where s: "\<forall>ev \<in> set (trace s). \<not> is_summary ev"
    "process_files E sched source_dir dest_dir tree fs0 = Some (report (str_lower E) ?files s)" by auto
  from s(2) r have req: "r = report (str_lower E) ?files s" by simp
  from report_header[OF s(1), of "str_lower E" ?files] hdr req have "raised s = None" by simp
  from report_breakdown[OF s(1) this, of "str_lower E" ?files] req
  have b: "breakdown (events r) = sort_key fst (count_extensions (str_lower E) ?files)" by simp
  show ?thesis
  proof (intro conjI allI)
    show "breakdown (events r) = sort_key fst (count_extensions (str_lower E) ?files)" by (rule b)
    fix ext
    have "count_of (breakdown (events r)) ext = count_of (count_extensions (str_lower E) ?files) ext"
      unfolding b by (rule count_of_sort[OF distinct_count_extensions])
    then show "count_of (breakdown (events r)) ext = length (filter (\<lambda>f. extension (str_lower E) f = ext) ?files)"
      by (simp only: count_of_count_extensions)
  qed
qed

theorem breakdown_counts_discovered_files_witness:
  "breakdown (events denied_run) = [(''txt'', 1)] \<and>
   length (filter (\<lambda>f. extension ascii_lower f = ''txt'') (fst (get_all_files [''src''] one_text_file))) = 1"
proof -
  have hdr: "Log INFO FilesProcessedByExtension \<in> set (events denied_run)"
    by (simp add: denied_run_def)
  note t = breakdown_counts_discovered_files[OF denied_run_eq hdr, unfolded str_lower_deny_moves]
  have c: "sort_key fst (count_extensions ascii_lower (fst (get_all_files [''src''] one_text_file))) = [(''txt'', 1)]"
    by (simp add: walk_one_text_file count_extensions_def extension_a_txt)
  from t c have b: "breakdown (events denied_run) = [(''txt'', 1)]" by simp
  from t have "count_of (breakdown (events denied_run)) ''txt''
     = length (filter (\<lambda>f. extension ascii_lower f = ''txt'') (fst (get_all_files [''src''] one_text_file)))"
    by blast
  with b have "length (filter (\<lambda>f. extension ascii_lower f = ''txt'') (fst (get_all_files [''src''] one_text_file))) = 1"
    by (simp add: count_of_def)
  with b show ?thesis by simp
qed

text \<open>
  Claim C1 as stated fails: with one file \<open>a.txt\<close> whose move is refused with a
  permission error, no file is moved and the breakdown still reports one \<open>txt\<close> file.
\<close>

theorem breakdown_counts_unmoved_file_counterexample:
  "process_files deny_moves [] [''src''] [''dest''] one_text_file [] = Some denied_run \<and>
   moved_files (events denied_run) = [] \<and>
   count_of (breakdown (events denied_run)) ''txt'' = 1 \<and>
   count_of (breakdown (events denied_run)) ''txt''
     \<noteq> length (filter (\<lambda>f. extension ascii_lower f = ''txt'')
          (moved_files (events denied_run)))"
  by (simp add: denied_run_eq) (simp add: denied_run_def count_of_def)

subsection \<open>C2\<close>

text \<open>
  Claim C2, as amended. When the source exists, differs from the destination, and the
  destination root has been created, the run returns and its last log line is the
  finished marker, whatever the schedule does: processing ends normally, an exception is
  caught, the user interrupts, or a \<open>BaseException\<close> passes through.
\<close>

theorem finished_marker_once_processing_starts:
  "source = Some tree \<Longrightarrow> source_dir \<noteq> dest_dir \<Longrightarrow> makedirs_error E dest_dir = None \<Longrightarrow>
   \<exists>r. main E sched source_dir dest_dir source fs0 = Some r \<and> events r \<noteq> []
     \<and> last (events r) = Log INFO ProcessFinished"
proof -
  assume src: "source = Some tree" and ne: "source_dir \<noteq> dest_dir"
    and mk: "makedirs_error E dest_dir = None"
  obtain r where r: "process_files E sched source_dir dest_dir tree
      (foldr (\<lambda>q. put_entry q Resolves) (with_parents dest_dir) fs0) = Some r"
    using process_files_returns by blast
  from main_after_preflight[OF r ne mk] obtain tail x where
    m: "main E sched source_dir dest_dir (Some tree) fs0
      = Some (r\<lparr>events := Makedirs dest_dir # events r @ tail @ [Log INFO ProcessFinished],
                exception := x\<rparr>)" by blast
  let ?r = "r\<lparr>events := Makedirs dest_dir # events r @ tail @ [Log INFO ProcessFinished],
                exception := x\<rparr>"
  have "events ?r \<noteq> [] \<and> last (events ?r) = Log INFO ProcessFinished" by simp
  with m src show ?thesis by blast
qed

theorem finished_marker_once_processing_starts_witness:
  "\<exists>r. main deny_moves [Interrupt KeyboardInterrupt] [''src''] [''dest''] (Some one_text_file) []
        = Some r \<and> last (events r) = Log INFO ProcessFinished"
proof -
  have "[''src''] \<noteq> [''dest'']" by simp
  moreover have "makedirs_error deny_moves [''dest''] = None" by (simp add: deny_moves_def)
  ultimately show ?thesis
    using finished_marker_once_processing_starts[OF refl, where source_dir = "[''src'']"
        and dest_dir = "[''dest'']" and E = deny_moves and tree = one_text_file
        and sched = "[Interrupt KeyboardInterrupt]" and ?fs0.0 = "[]"]
    by blast
qed

text \<open>
  Claim C2 as stated fails on the two fatal checks: the run logs the error and returns
  before the \<open>try\<close> statement, so no finished marker is logged.
\<close>

theorem finished_marker_missing_counterexample:
  "main deny_moves [] [''src''] [''dest''] None []
     = Some \<lparr>final_fs = [], events = [Log ERROR (SourceDoesNotExist [''src''])], exception = None\<rparr> \<and>
   Log INFO ProcessFinished \<notin> set [Log ERROR (SourceDoesNotExist [''src''])] \<and>
   main deny_moves [] [''data''] [''data''] (Some one_text_file) []
     = Some \<lparr>final_fs = [], events = [Log ERROR SourceAndDestinationSame], exception = None\<rparr> \<and>
   Log INFO ProcessFinished \<notin> set [Log ERROR SourceAndDestinationSame]"
  by (simp add: main_def)

subsection \<open>C3\<close>

text \<open>
  Claim C3 fails on the code. The text \<open>hello world!\<close> has twelve characters, so four
  workers get chunks of three; the words are cut at the chunk boundaries and the pipeline
  counts \<open>hel\<close> and \<open>wor\<close>, where the whole text has \<open>hello\<close> and \<open>world\<close>.
\<close>

theorem word_frequencies_split_words_at_chunk_boundaries:
  "word_frequencies ascii_word ascii_lower ''hello world!'' = Inr [(''hel'', 1), (''wor'', 1)] \<and>
   reduce_function (map_function ascii_word ascii_lower ''hello world!'')
     = [(''hello'', 1), (''world'', 1)]"
proof
  show "word_frequencies ascii_word ascii_lower ''hello world!''
     = Inr [(''hel'', 1), (''wor'', 1)]"
    by (simp add: word_frequencies_def parallel_map_def chunks_hello map_chunks_hello
        reduce_function_def)
  show "reduce_function (map_function ascii_word ascii_lower ''hello world!'')
     = [(''hello'', 1), (''world'', 1)]"
    by (simp add: map_function_def findall_words_def ascii_lower_def ascii_lower_char_def
        ascii_word_def reduce_function_def)
qed

subsection \<open>C4\<close>

text \<open>
  Claim C4, as amended. Every collected path lies strictly under the root; no directory on
  the way to it, the root included, has a protected name; and no directory strictly below
  the root on the way to it has a name starting with a dot. A root with a protected name
  yields the empty set. (A root whose own name starts with a dot is scanned like any
  other: see the counterexample.)
\<close>

theorem walker_skips_pruned_directories:
  "(\<forall>p \<in> set (fst (get_all_files root tree)).
      length root < length p \<and> take (length root) p = root
      \<and> \<not> protected_ancestor root p \<and> \<not> hidden_ancestor_below root p) \<and>
   (name root \<in> SYSTEM_DIRS \<longrightarrow> fst (get_all_files root tree) = [])"
proof (intro conjI ballI impI)
  fix p assume p: "p \<in> set (fst (get_all_files root tree))"
  then have kept: "kept_under root p" using walker_kept(1)[of root tree] by blast
  then obtain rel where rel: "p = root @ rel" "rel \<noteq> []" unfolding kept_under_def by blast
  then show "length root < length p" "take (length root) p = root" by simp_all
  have root_ok: "name root \<notin> SYSTEM_DIRS"
    using p get_all_files_protected_root[of root tree] by auto
  show "\<not> protected_ancestor root p"
  proof
    assume "protected_ancestor root p"
    then obtain k where k: "length root \<le> k" "k < length p" "name (take k p) \<in> SYSTEM_DIRS"
      unfolding protected_ancestor_def by auto
    show False
    proof (cases "k = length root")
      case True
      with k(3) rel(1) root_ok show False by simp
    next
      case False
      with k(1) have "length root < k" by simp
      from kept_under_name[OF kept this k(2)] k(3) show False by (simp add: pruned_name_def)
    qed
  qed
  show "\<not> hidden_ancestor_below root p"
  proof
    assume "hidden_ancestor_below root p"
    then obtain k where k: "length root < k" "k < length p" "startswith (name (take k p)) ''.''"
      unfolding hidden_ancestor_below_def by (auto simp: Suc_le_eq)
    from kept_under_name[OF kept k(1,2)] k(3) show False by (simp add: pruned_name_def)
  qed
next
  assume "name root \<in> SYSTEM_DIRS"
  then show "fst (get_all_files root tree) = []" by (rule get_all_files_protected_root)
qed

theorem walker_skips_pruned_directories_witness:
  "fst (get_all_files [''src''] tree_demo) = [[''src'', ''docs'', ''b.md''], [''src'', ''a.txt'']] \<and>
   \<not> protected_ancestor [''src''] [''src'', ''docs'', ''b.md''] \<and>
   \<not> hidden_ancestor_below [''src''] [''src'', ''docs'', ''b.md''] \<and>
   fst (get_all_files [''Windows''] tree_demo) = []"
proof (intro conjI)
  show w: "fst (get_all_files [''src''] tree_demo) = [[''src'', ''docs'', ''b.md''], [''src'', ''a.txt'']]"
    by (rule walk_demo)
  then have m: "[''src'', ''docs'', ''b.md''] \<in> set (fst (get_all_files [''src''] tree_demo))"
    by simp
  with walker_skips_pruned_directories[of "[''src'']" tree_demo]
  show "\<not> protected_ancestor [''src''] [''src'', ''docs'', ''b.md'']"
    and "\<not> hidden_ancestor_below [''src''] [''src'', ''docs'', ''b.md'']" by blast+
  have "name [''Windows''] \<in> SYSTEM_DIRS" by (simp add: name_def SYSTEM_DIRS_def)
  with walker_skips_pruned_directories[of "[''Windows'']" tree_demo]
  show "fst (get_all_files [''Windows''] tree_demo) = []" by blast
qed

theorem walker_hidden_root_counterexample:
  "[''.cfg'', ''a.txt''] \<in> set (fst (get_all_files [''.cfg''] (Dir [(''a.txt'', File None)]))) \<and>
   hidden_ancestor [''.cfg''] [''.cfg'', ''a.txt'']"
proof
  show "[''.cfg'', ''a.txt''] \<in> set (fst (get_all_files [''.cfg''] (Dir [(''a.txt'', File None)])))"
    by (simp add: walk_cfg)
  have "(1::nat) \<in> {length [''.cfg'']..<length [''.cfg'', ''a.txt'']}" by simp
  moreover have "startswith (name (take 1 [''.cfg'', ''a.txt''])) ''.''"
    by (simp add: startswith_def name_def)
  ultimately show "hidden_ancestor [''.cfg''] [''.cfg'', ''a.txt'']"
    unfolding hidden_ancestor_def by blast
qed

subsection \<open>C5\<close>




subsection \<open>C6\<close>

text \<open>
  Claim C6. A name has a suffix exactly when it splits as \<open>st.ext\<close> with \<open>st\<close> and
  \<open>ext\<close> non-empty and no dot in \<open>ext\<close>. For every path with such a name the extension
  key is what \<open>str.lower\<close> gives for \<open>ext\<close>, the suffix without its leading dot; for
  every other path it is \<open>no_extension\<close>. Where \<open>ext\<close> is ASCII the key is \<open>ext\<close>
  character by character, each of \<open>A..Z\<close> replaced by its small letter and every other
  character kept. \<open>REPORT.PDF\<close> classifies as \<open>pdf\<close>, \<open>README\<close> as \<open>no_extension\<close>.
\<close>

theorem extension_key_classification:
  "(\<forall>st ext. name p = st @ ''.'' @ ext \<and> st \<noteq> [] \<and> ext \<noteq> [] \<and> CHR ''.'' \<notin> set ext
       \<longrightarrow> suffix p = ''.'' @ ext \<and> extension L p = L ext
         \<and> (lowers_ascii L \<and> list_all is_ascii ext
              \<longrightarrow> length (extension L p) = length ext
                \<and> (\<forall>i<length ext. lowercase_of (ext ! i) (extension L p ! i)))) \<and>
   ((\<nexists>st ext. name p = st @ ''.'' @ ext \<and> st \<noteq> [] \<and> ext \<noteq> [] \<and> CHR ''.'' \<notin> set ext)
       \<longrightarrow> suffix p = [] \<and> extension L p = ''no_extension'') \<and>
   (lowers_ascii L \<longrightarrow> extension L (d @ [''REPORT.PDF'']) = ''pdf'') \<and>
   extension L (d @ [''README'']) = ''no_extension''"
proof (intro conjI allI impI)
  fix st ext
  assume a: "name p = st @ ''.'' @ ext \<and> st \<noteq> [] \<and> ext \<noteq> [] \<and> CHR ''.'' \<notin> set ext"
  then show sp: "suffix p = ''.'' @ ext" using suffix_split(1)[of p st ext] by simp
  then show "extension L p = L ext" by (simp add: extension_def)
  {
    assume b: "lowers_ascii L \<and> list_all is_ascii ext"
    from extension_lowercase[OF sp] b
    show "length (extension L p) = length ext" by blast
    fix i assume "i < length ext"
    with extension_lowercase[OF sp] b
    show "lowercase_of (ext ! i) (extension L p ! i)" by blast
  }
next
  assume n: "\<nexists>st ext. name p = st @ ''.'' @ ext \<and> st \<noteq> [] \<and> ext \<noteq> [] \<and> CHR ''.'' \<notin> set ext"
  with suffix_cases[of p] show "suffix p = []" by auto
  then show "extension L p = ''no_extension''" by (simp add: extension_def)
next
  assume la: "lowers_ascii L"
  have "list_all is_ascii ''PDF''" by (simp add: is_ascii_def)
  with la have "L ''PDF'' = ascii_lower ''PDF''" by (simp only: lowers_ascii_def)
  then show "extension L (d @ [''REPORT.PDF'']) = ''pdf''"
    by (simp add: extension_def suffix_def name_def rfind_def ascii_lower_def ascii_lower_char_def)
next
  show "extension L (d @ [''README'']) = ''no_extension''"
    by (simp add: extension_def suffix_def name_def rfind_def)
qed

theorem extension_key_classification_witness:
  "extension ascii_lower [''home'', ''Report.Tar.GZ''] = ''gz'' \<and>
   lowercase_of CHR ''G'' (extension ascii_lower [''home'', ''Report.Tar.GZ''] ! 0) \<and>
   extension ascii_lower [''home'', ''.bashrc''] = ''no_extension'' \<and>
   extension ascii_lower [''home'', ''REPORT.PDF''] = ''pdf''"
proof -
  have "name [''home'', ''Report.Tar.GZ''] = ''Report.Tar'' @ ''.'' @ ''GZ'' \<and> ''Report.Tar'' \<noteq> []
      \<and> ''GZ'' \<noteq> [] \<and> CHR ''.'' \<notin> set ''GZ''"
    by (simp add: name_def)
  with extension_key_classification[of "[''home'', ''Report.Tar.GZ'']" ascii_lower]
  have gz: "extension ascii_lower [''home'', ''Report.Tar.GZ''] = ascii_lower ''GZ''
      \<and> (lowers_ascii ascii_lower \<and> list_all is_ascii ''GZ''
           \<longrightarrow> (\<forall>i<length ''GZ''.
                 lowercase_of (''GZ'' ! i) (extension ascii_lower [''home'', ''Report.Tar.GZ''] ! i)))"
    by blast
  have "list_all is_ascii ''GZ''" by (simp add: is_ascii_def)
  with gz lowers_ascii_ascii_lower
  have "\<forall>i<length ''GZ''.
      lowercase_of (''GZ'' ! i) (extension ascii_lower [''home'', ''Report.Tar.GZ''] ! i)"
    by blast
  then have "0 < length ''GZ''
      \<longrightarrow> lowercase_of (''GZ'' ! 0) (extension ascii_lower [''home'', ''Report.Tar.GZ''] ! 0)"
    by (rule spec)
  then have g: "lowercase_of CHR ''G'' (extension ascii_lower [''home'', ''Report.Tar.GZ''] ! 0)"
    by simp
  have "\<nexists>st ext. name [''home'', ''.bashrc''] = st @ ''.'' @ ext \<and> st \<noteq> [] \<and> ext \<noteq> []
      \<and> CHR ''.'' \<notin> set ext"
  proof
    assume "\<exists>st ext. name [''home'', ''.bashrc''] = st @ ''.'' @ ext \<and> st \<noteq> [] \<and> ext \<noteq> []
      \<and> CHR ''.'' \<notin> set ext"
    then obtain st ext where e: "''.bashrc'' = st @ ''.'' @ ext" "st \<noteq> []" "CHR ''.'' \<notin> set ext"
      by (auto simp: name_def)
    then obtain c st' where "st = c # st'" by (cases st) auto
    with e have "''bashrc'' = st' @ ''.'' @ ext" by simp
    then have "CHR ''.'' \<in> set ''bashrc''" by (metis append_Cons in_set_conv_decomp)
    then show False by simp
  qed
  with extension_key_classification[of "[''home'', ''.bashrc'']" ascii_lower]
  have b: "extension ascii_lower [''home'', ''.bashrc''] = ''no_extension''" by blast
  from extension_key_classification[of _ ascii_lower "[''home'']"] lowers_ascii_ascii_lower
  have "extension ascii_lower ([''home''] @ [''REPORT.PDF'']) = ''pdf''" by blast
  then have r: "extension ascii_lower [''home'', ''REPORT.PDF''] = ''pdf''" by simp
  from gz have "extension ascii_lower [''home'', ''Report.Tar.GZ''] = ''gz''"
    by (simp add: ascii_lower_def ascii_lower_char_def)
  with g b r show ?thesis by (intro conjI)
qed

subsection \<open>C7\<close>



subsection \<open>C8\<close>

text \<open>
  Claim C8. In every state a run can reach, at most ten tasks are inside
  \<open>async with semaphore\<close>, and the free slots and the running tasks add up to ten. A task
  runs its move only while it holds a slot, cannot take one when none is free, and gives
  its slot back when it completes, whatever \<open>move_file\<close> met. Every run of \<open>gather\<close>
  ends, in a state reached by such steps.
\<close>

theorem at_most_ten_relocations_in_flight:
  "length (running (foldl (step E d t) (start files fs0 tr) sched)) \<le> 10 \<and>
   semaphore (foldl (step E d t) (start files fs0 tr) sched)
     + length (running (foldl (step E d t) (start files fs0 tr) sched)) = 10 \<and>
   (\<forall>(s::controller) f. slots_held s \<and> raised s = None \<and> f \<in> set (running s) \<longrightarrow>
      semaphore (step E d t s (Complete f)) = semaphore s + 1 \<and>
      length (running (step E d t s (Complete f))) + 1 = length (running s)) \<and>
   (\<forall>(s::controller) f. f \<notin> set (running s) \<longrightarrow> step E d t s (Complete f) = s) \<and>
   (\<forall>(s::controller) f. semaphore s = 0 \<longrightarrow> step E d t s (Acquire f) = s) \<and>
   (\<exists>more. gather E d t sched (start files fs0 tr)
       = Some (foldl (step E d t) (start files fs0 tr) (sched @ more)))"
proof (intro conjI allI impI)
  have h: "slots_held (foldl (step E d t) (start files fs0 tr) sched)"
    by (rule slots_held_run[OF slots_held_start])
  then show "semaphore (foldl (step E d t) (start files fs0 tr) sched)
     + length (running (foldl (step E d t) (start files fs0 tr) sched)) = 10"
    by (simp add: slots_held_def)
  then show "length (running (foldl (step E d t) (start files fs0 tr) sched)) \<le> 10"
    by arith
next
  fix s :: controller and f assume a: "slots_held s \<and> raised s = None \<and> f \<in> set (running s)"
  then show "semaphore (step E d t s (Complete f)) = semaphore s + 1"
    by (simp add: step_def Let_def)
  from a length_remove1_mem[of f "running s"]
  show "length (running (step E d t s (Complete f))) + 1 = length (running s)"
    by (simp add: step_def Let_def)
next
  fix s :: controller and f assume "f \<notin> set (running s)"
  then show "step E d t s (Complete f) = s" by (simp add: step_def)
next
  fix s :: controller and f assume "semaphore s = 0"
  then show "step E d t s (Acquire f) = s" by (simp add: step_def)
next
  from gather_is_run[of E d t sched files fs0 tr]
  show "\<exists>more. gather E d t sched (start files fs0 tr)
       = Some (foldl (step E d t) (start files fs0 tr) (sched @ more))" by blast
qed

theorem at_most_ten_relocations_in_flight_witness:
  "length (running (foldl (step deny_moves [''dest''] 11) (start eleven_files [] [])
      (map Acquire eleven_files))) = 10 \<and>
   pending (foldl (step deny_moves [''dest''] 11) (start eleven_files [] [])
      (map Acquire eleven_files)) = [[''src'', ''10.txt'']] \<and>
   semaphore (step deny_moves [''dest''] 11
      (step deny_moves [''dest''] 11 (start eleven_files [] []) (Acquire [''src'', ''0.txt'']))
      (Complete [''src'', ''0.txt''])) = 10"
proof (intro conjI)
  let ?run = "foldl (step deny_moves [''dest''] 11) (start eleven_files [] [])
      (map Acquire eleven_files)"
  note t = at_most_ten_relocations_in_flight[of deny_moves "[''dest'']" 11 eleven_files "[]" "[]"
      "map Acquire eleven_files"]
  have sem: "semaphore ?run = 0" by code_simp
  from t have "semaphore ?run + length (running ?run) = 10" by blast
  with sem show "length (running ?run) = 10" by simp
  show "pending ?run = [[''src'', ''10.txt'']]" by code_simp
  let ?s = "step deny_moves [''dest''] 11 (start eleven_files [] []) (Acquire [''src'', ''0.txt''])"
  have "slots_held ?s \<and> raised ?s = None \<and> [''src'', ''0.txt''] \<in> set (running ?s)"
    by code_simp
  with t have "semaphore (step deny_moves [''dest''] 11 ?s (Complete [''src'', ''0.txt'']))
      = semaphore ?s + 1" by blast
  moreover have "semaphore ?s = 9" by code_simp
  ultimately show "semaphore (step deny_moves [''dest''] 11 ?s (Complete [''src'', ''0.txt''])) = 10"
    by simp
qed

subsection \<open>C9\<close>

text \<open>
  Claim C9, as amended. The test for a leading dot is made on directory entries only: a
  readable regular file is collected whatever its name, hence also when the name starts
  with a dot, at every depth the walk reaches, that is, when each directory on the way
  is not pruned and the scan of its parent gets as far as its entry. Every run of
  \<open>process_files\<close> returns, and in a run that no exception interrupts
  \<open>shutil.move\<close> was called on the file or creating its target directory failed; where
  the environment refuses neither the target directory nor the move, the file was moved
  to a name in the directory of its extension key and logged as moved. One such call of
  \<open>move_file\<close> leaves an entry at that destination and none at the source.
\<close>

theorem hidden_files_are_collected_and_relocated:
  "name root \<notin> SYSTEM_DIRS \<Longrightarrow> walks_to tree rel \<Longrightarrow>
   root @ rel \<in> set (fst (get_all_files root tree)) \<and>
   (\<forall>E sched dd fs0. \<exists>r. process_files E sched root dd tree fs0 = Some r \<and>
      (uninterrupted sched \<longrightarrow>
         attempted (root @ rel) (events r) \<and>
         (permits E dd (root @ rel)
            \<longrightarrow> relocated (str_lower E) dd (root @ rel) (events r)))) \<and>
   (\<forall>E dd fs0. permits E dd (root @ rel) \<longrightarrow>
      (\<exists>nm. ShutilMove (root @ rel) (dd @ [extension (str_lower E) (root @ rel), nm])
               \<in> set (snd (move_file E (root @ rel) dd fs0))
         \<and> has_entry (fst (move_file E (root @ rel) dd fs0))
             (dd @ [extension (str_lower E) (root @ rel), nm])
         \<and> (root @ rel \<noteq> dd @ [extension (str_lower E) (root @ rel), nm]
              \<longrightarrow> \<not> has_entry (fst (move_file E (root @ rel) dd fs0)) (root @ rel))))"
proof -
  assume a: "name root \<notin> SYSTEM_DIRS" "walks_to tree rel"
  have c: "root @ rel \<in> set (fst (get_all_files root tree))"
    using a(2,1) by (rule walker_reaches)
  have p: "\<forall>E sched dd fs0. \<exists>r. process_files E sched root dd tree fs0 = Some r \<and>
      (uninterrupted sched \<longrightarrow>
         attempted (root @ rel) (events r) \<and>
         (permits E dd (root @ rel)
            \<longrightarrow> relocated (str_lower E) dd (root @ rel) (events r)))"
  proof (intro allI)
    fix E sched dd fs0
    obtain r where r: "process_files E sched root dd tree fs0 = Some r"
      using process_files_returns by blast
    have "uninterrupted sched \<longrightarrow>
         attempted (root @ rel) (events r) \<and>
         (permits E dd (root @ rel)
            \<longrightarrow> relocated (str_lower E) dd (root @ rel) (events r))"
    proof
      assume "uninterrupted sched"
      from collected_files_are_handled[OF r this c, unfolded handled_def]
      show "attempted (root @ rel) (events r) \<and>
         (permits E dd (root @ rel)
            \<longrightarrow> relocated (str_lower E) dd (root @ rel) (events r))" .
    qed
    with r show "\<exists>r. process_files E sched root dd tree fs0 = Some r \<and>
      (uninterrupted sched \<longrightarrow>
         attempted (root @ rel) (events r) \<and>
         (permits E dd (root @ rel)
            \<longrightarrow> relocated (str_lower E) dd (root @ rel) (events r)))"
      by (intro exI conjI)
  qed
  have m: "\<forall>E dd fs0. permits E dd (root @ rel) \<longrightarrow>
      (\<exists>nm. ShutilMove (root @ rel) (dd @ [extension (str_lower E) (root @ rel), nm])
               \<in> set (snd (move_file E (root @ rel) dd fs0))
         \<and> has_entry (fst (move_file E (root @ rel) dd fs0))
             (dd @ [extension (str_lower E) (root @ rel), nm])
         \<and> (root @ rel \<noteq> dd @ [extension (str_lower E) (root @ rel), nm]
              \<longrightarrow> \<not> has_entry (fst (move_file E (root @ rel) dd fs0)) (root @ rel)))"
  proof (intro allI impI)
    fix E dd fs0
    assume pm: "permits E dd (root @ rel)"
    let ?f = "root @ rel"
    from move_file_permitted[OF pm, of fs0] obtain nm where
      mf: "move_file E ?f dd fs0 =
        (shutil_move E ?f (dd @ [extension (str_lower E) ?f, nm])
           (foldr (\<lambda>q. put_entry q Resolves) (with_parents (dd @ [extension (str_lower E) ?f])) fs0),
         [Makedirs (dd @ [extension (str_lower E) ?f]),
          ShutilMove ?f (dd @ [extension (str_lower E) ?f, nm]),
          Log INFO (SuccessfullyMoved ?f (dd @ [extension (str_lower E) ?f, nm]))])" by blast
    from pm have "move_error E ?f (dd @ [extension (str_lower E) ?f, nm]) = None"
      by (simp add: permits_def)
    from shutil_move_effect[OF this] mf
    have "ShutilMove ?f (dd @ [extension (str_lower E) ?f, nm])
               \<in> set (snd (move_file E ?f dd fs0))
         \<and> has_entry (fst (move_file E ?f dd fs0)) (dd @ [extension (str_lower E) ?f, nm])
         \<and> (?f \<noteq> dd @ [extension (str_lower E) ?f, nm]
              \<longrightarrow> \<not> has_entry (fst (move_file E ?f dd fs0)) ?f)"
      by simp
    then show "\<exists>nm. ShutilMove ?f (dd @ [extension (str_lower E) ?f, nm])
               \<in> set (snd (move_file E ?f dd fs0))
         \<and> has_entry (fst (move_file E ?f dd fs0)) (dd @ [extension (str_lower E) ?f, nm])
         \<and> (?f \<noteq> dd @ [extension (str_lower E) ?f, nm]
              \<longrightarrow> \<not> has_entry (fst (move_file E ?f dd fs0)) ?f)"
      by (rule exI)
  qed
  from c p m show ?thesis by (intro conjI)
qed

theorem hidden_files_are_collected_and_relocated_witness:
  "[''src'', ''docs'', ''.env''] \<in> set (fst (get_all_files [''src''] nested_hidden)) \<and>
   (\<exists>r. process_files allow_all [] [''src''] [''dest''] nested_hidden [] = Some r \<and>
      relocated ascii_lower [''dest''] [''src'', ''docs'', ''.env''] (events r))"
proof -
  have 1: "name [''src''] \<notin> SYSTEM_DIRS" by (simp add: name_def SYSTEM_DIRS_def)
  have w: "walks_to (Dir [(''.env'', File None)]) [''.env'']"
    by (rule reach_file) (simp add: scanned_def aborts_scan_def)
  have e: "(''docs'', Dir [(''.env'', File None)])
      \<in> set (scanned [(''notes'', File (Some PermissionError)),
                       (''docs'', Dir [(''.env'', File None)])])"
    by (simp add: scanned_def aborts_scan_def)
  have np: "\<not> pruned_name ''docs''"
    by (simp add: pruned_name_def SYSTEM_DIRS_def startswith_def)
  have 2: "walks_to nested_hidden [''docs'', ''.env'']"
    unfolding nested_hidden_def by (rule reach_dir[OF e np w])
  note t = hidden_files_are_collected_and_relocated[OF 1 2]
  have u: "uninterrupted []" by (simp add: uninterrupted_def)
  have pm: "permits allow_all [''dest''] ([''src''] @ [''docs'', ''.env''])"
    by (simp add: permits_def allow_all_def)
  from t have c: "[''src''] @ [''docs'', ''.env''] \<in> set (fst (get_all_files [''src''] nested_hidden))"
    by blast
  from t obtain r where r: "process_files allow_all [] [''src''] [''dest''] nested_hidden [] = Some r"
    "uninterrupted [] \<longrightarrow>
       attempted ([''src''] @ [''docs'', ''.env'']) (events r) \<and>
       (permits allow_all [''dest''] ([''src''] @ [''docs'', ''.env''])
          \<longrightarrow> relocated (str_lower allow_all) [''dest''] ([''src''] @ [''docs'', ''.env'']) (events r))"
    by blast
  from r(2) u pm
  have "relocated (str_lower allow_all) [''dest''] ([''src''] @ [''docs'', ''.env'']) (events r)"
    by blast
  then have "relocated ascii_lower [''dest''] [''src'', ''docs'', ''.env''] (events r)"
    by (simp add: allow_all_def)
  with r(1) have "\<exists>r. process_files allow_all [] [''src''] [''dest''] nested_hidden [] = Some r \<and>
      relocated ascii_lower [''dest''] [''src'', ''docs'', ''.env''] (events r)"
    by (intro exI conjI)
  with c show ?thesis by simp
qed

text \<open>
  Claim C9 as stated fails on both halves. In \<open>broken_then_hidden\<close> the entry before
  \<open>.env\<close> raises an error that is not a permission error: the scan of the directory
  ends there and \<open>.env\<close>, a readable regular file of the root, is not collected. In
  \<open>hidden_demo\<close> the file \<open>.env\<close> is collected, but its move is refused: the run
  logs its summary, no file was moved, \<open>.env\<close> is still at the source and nothing is at
  the destination.
\<close>

theorem hidden_file_missed_or_left_counterexample:
  "fst (get_all_files [''src''] broken_then_hidden) = [] \<and>
   [''src'', ''.env''] \<in> set (fst (get_all_files [''src''] hidden_demo)) \<and>
   process_files deny_moves [] [''src''] [''dest''] hidden_demo [([''src'', ''.env''], Resolves)]
     = Some hidden_denied_run \<and>
   moved_files (events hidden_denied_run) = [] \<and>
   has_entry (final_fs hidden_denied_run) [''src'', ''.env''] \<and>
   \<not> has_entry (final_fs hidden_denied_run) [''dest'', ''no_extension'', ''.env'']"
  by (simp add: walk_broken_then_hidden walk_hidden_demo hidden_denied_run_eq)
     (simp add: hidden_denied_run_def has_entry_def)

subsection \<open>C10\<close>



end
